theory Spec2Isabelle
  imports Complex_Main
begin

section \<open>Python values used by station.py\<close>

text \<open>
  A Python \<open>bytes\<close> object is a list of 8-bit characters (\<open>string\<close>); a Python \<open>str\<close> is a
  list of Unicode code points (\<open>nat\<close>). \<open>py\<close> writes an ASCII literal as a \<open>str\<close>.
\<close>

type_synonym bytes = "char list"
type_synonym pystr = "nat list"

definition py :: "string \<Rightarrow> pystr" where
  "py s = map of_char s"

text \<open>
  The parts of the Unicode character database that station.py reaches through \<open>\d\<close>,
  \<open>int()\<close>, \<open>float()\<close> and \<open>str.isprintable\<close>. The ASCII range is written out below; what
  the database says of the code points from 128 on is a parameter of the model:
  \<open>decimal_value\<close> gives the digit value of a decimal digit (category Nd), and
  \<open>printable\<close> says whether \<open>str.isprintable\<close> holds.
\<close>

record ucd =
  decimal_value :: "nat \<Rightarrow> nat option"
  printable :: "nat \<Rightarrow> bool"

definition ascii_ucd :: ucd where
  "ascii_ucd = \<lparr> decimal_value = (\<lambda>c. None), printable = (\<lambda>c. True) \<rparr>"

definition digit_value :: "ucd \<Rightarrow> nat \<Rightarrow> nat option" where
  "digit_value U c =
     (if c < 128 then (if 48 \<le> c \<and> c \<le> 57 then Some (c - 48) else None)
      else decimal_value U c)"

definition isdecimal :: "ucd \<Rightarrow> nat \<Rightarrow> bool" where
  "isdecimal U c = (digit_value U c \<noteq> None)"

text \<open>\<open>str.isprintable\<close> on one character: in ASCII exactly the codes 32 to 126.\<close>

definition isprintable :: "ucd \<Rightarrow> nat \<Rightarrow> bool" where
  "isprintable U c = (if c < 128 then 32 \<le> c \<and> c < 127 else printable U c)"

text \<open>Unicode white space, as \<open>str.strip\<close>, \<open>\s\<close> and \<open>\S\<close> use it.\<close>

definition isspace :: "nat \<Rightarrow> bool" where
  "isspace c =
     ((9 \<le> c \<and> c \<le> 13) \<or> (28 \<le> c \<and> c \<le> 32) \<or> c = 133 \<or> c = 160 \<or> c = 5760 \<or>
      (8192 \<le> c \<and> c \<le> 8202) \<or> c = 8232 \<or> c = 8233 \<or> c = 8239 \<or> c = 8287 \<or>
      c = 12288)"

definition strip :: "pystr \<Rightarrow> pystr" where
  "strip s = rev (dropWhile isspace (rev (dropWhile isspace s)))"

text \<open>\<open>sub in s\<close> on strings.\<close>

fun contains :: "pystr \<Rightarrow> pystr \<Rightarrow> bool" where
  "contains sub [] = (sub = [])"
| "contains sub (c # cs) = (take (length sub) (c # cs) = sub \<or> contains sub cs)"

text \<open>\<open>s.split(sep)\<close> for a one-character separator.\<close>

fun split_on :: "nat \<Rightarrow> pystr \<Rightarrow> pystr list" where
  "split_on sep [] = [[]]"
| "split_on sep (c # cs) =
     (if c = sep then [] # split_on sep cs
      else (case split_on sep cs of
              [] \<Rightarrow> [[c]]
            | p # ps \<Rightarrow> (c # p) # ps))"

text \<open>
  \<open>int(s)\<close> and \<open>float(s)\<close> on the strings that reach them: runs of decimal digits, for
  \<open>float\<close> with an optional point. \<open>None\<close> stands for the \<open>ValueError\<close> Python raises. A
  Python float is modelled as a real number; rounding is not modelled.
\<close>

fun digits_value :: "ucd \<Rightarrow> nat \<Rightarrow> pystr \<Rightarrow> nat option" where
  "digits_value U acc [] = Some acc"
| "digits_value U acc (c # cs) =
     (case digit_value U c of
        None \<Rightarrow> None
      | Some d \<Rightarrow> digits_value U (10 * acc + d) cs)"

definition py_int :: "ucd \<Rightarrow> pystr \<Rightarrow> nat option" where
  "py_int U s = (if s = [] then None else digits_value U 0 s)"

definition py_float :: "ucd \<Rightarrow> pystr \<Rightarrow> real option" where
  "py_float U s =
     (let ip = takeWhile (\<lambda>c. c \<noteq> 46) s;
          fp = drop (Suc (length ip)) s
      in case (py_int U ip, digits_value U 0 fp) of
           (Some i, Some f) \<Rightarrow> Some (real i + real f / 10 ^ length fp)
         | _ \<Rightarrow> None)"

subsection \<open>Decoding UTF-8\<close>

text \<open>
  \<open>bytes.decode('utf-8', errors=...)\<close>. An invalid sequence is the longest prefix of a
  well-formed sequence; with \<open>errors='replace'\<close> it becomes one U+FFFD, with
  \<open>errors='ignore'\<close> it is dropped.
\<close>

datatype errors = Replace | Ignore

definition is_cont :: "nat \<Rightarrow> bool" where
  "is_cont b = (128 \<le> b \<and> b \<le> 191)"

text \<open>The range allowed for the second byte after the lead byte \<open>b\<close>.\<close>

definition second_ok :: "nat \<Rightarrow> nat \<Rightarrow> bool" where
  "second_ok b c =
     (if b = 224 then 160 \<le> c \<and> c \<le> 191
      else if b = 237 then 128 \<le> c \<and> c \<le> 159
      else if b = 240 then 144 \<le> c \<and> c \<le> 191
      else if b = 244 then 128 \<le> c \<and> c \<le> 143
      else is_cont c)"

text \<open>One decoding step: the code point (or \<open>None\<close> for an error) and the bytes consumed.\<close>

definition utf8_step :: "nat \<Rightarrow> nat list \<Rightarrow> nat option \<times> nat" where
  "utf8_step b bs =
     (if b < 128 then (Some b, 1)
      else if 194 \<le> b \<and> b \<le> 223 then
        (case bs of
           c1 # _ \<Rightarrow> if is_cont c1 then (Some ((b - 192) * 64 + (c1 - 128)), 2) else (None, 1)
         | [] \<Rightarrow> (None, 1))
      else if 224 \<le> b \<and> b \<le> 239 then
        (case bs of
           c1 # r1 \<Rightarrow>
             if second_ok b c1 then
               (case r1 of
                  c2 # _ \<Rightarrow>
                    if is_cont c2
                    then (Some ((b - 224) * 4096 + (c1 - 128) * 64 + (c2 - 128)), 3)
                    else (None, 2)
                | [] \<Rightarrow> (None, 2))
             else (None, 1)
         | [] \<Rightarrow> (None, 1))
      else if 240 \<le> b \<and> b \<le> 244 then
        (case bs of
           c1 # r1 \<Rightarrow>
             if second_ok b c1 then
               (case r1 of
                  c2 # r2 \<Rightarrow>
                    if is_cont c2 then
                      (case r2 of
                         c3 # _ \<Rightarrow>
                           if is_cont c3
                           then (Some ((b - 240) * 262144 + (c1 - 128) * 4096 +
                                       (c2 - 128) * 64 + (c3 - 128)), 4)
                           else (None, 3)
                       | [] \<Rightarrow> (None, 3))
                    else (None, 2)
                | [] \<Rightarrow> (None, 2))
             else (None, 1)
         | [] \<Rightarrow> (None, 1))
      else (None, 1))"

function decode_points :: "errors \<Rightarrow> nat list \<Rightarrow> pystr" where
  "decode_points e [] = []"
| "decode_points e (b # bs) =
     (case utf8_step b bs of
        (r, n) \<Rightarrow>
          (case r of
             Some c \<Rightarrow> [c]
           | None \<Rightarrow> (case e of Replace \<Rightarrow> [65533] | Ignore \<Rightarrow> []))
          @ decode_points e (drop (n - 1) bs))"
  by pat_completeness auto
termination
  by (relation "measure (\<lambda>(e, bs). length bs)") auto

definition decode_utf8 :: "errors \<Rightarrow> bytes \<Rightarrow> pystr" where
  "decode_utf8 e bs = decode_points e (map of_char bs)"

section \<open>The regular expressions of station.py\<close>

text \<open>
  The patterns station.py compiles use literals, single characters of a class, greedy and
  lazy repetition of a class, an optional item, sequencing, capturing groups and \<open>$\<close>.
  \<open>rmatch\<close> is the backtracking matcher of Python's \<open>re\<close> on them, in continuation style:
  \<open>rmatch r k s gs\<close> matches \<open>r\<close> at the head of \<open>s\<close> and hands the rest of the input and the
  groups closed so far to \<open>k\<close>, trying the alternatives in the order \<open>re\<close> tries them.
\<close>

datatype re =
    Lit pystr
  | Cls "nat \<Rightarrow> bool"
  | Rep bool nat "nat \<Rightarrow> bool"
  | Opt re
  | Seq re re
  | Grp re
  | Eos

text \<open>Greedy repetition of a class, at least \<open>n\<close> times: the longest run first.\<close>

fun greedy :: "(nat \<Rightarrow> bool) \<Rightarrow> nat \<Rightarrow> (pystr \<Rightarrow> 'a option) \<Rightarrow> pystr \<Rightarrow> 'a option" where
  "greedy p n k [] = (if n = 0 then k [] else None)"
| "greedy p n k (c # cs) =
     (case (if p c then greedy p (n - 1) k cs else None) of
        Some r \<Rightarrow> Some r
      | None \<Rightarrow> if n = 0 then k (c # cs) else None)"

text \<open>Lazy repetition of a class, at least \<open>n\<close> times: the shortest run first.\<close>

fun lazy :: "(nat \<Rightarrow> bool) \<Rightarrow> nat \<Rightarrow> (pystr \<Rightarrow> 'a option) \<Rightarrow> pystr \<Rightarrow> 'a option" where
  "lazy p n k [] = (if n = 0 then k [] else None)"
| "lazy p n k (c # cs) =
     (case (if n = 0 then k (c # cs) else None) of
        Some r \<Rightarrow> Some r
      | None \<Rightarrow> if p c then lazy p (n - 1) k cs else None)"

text \<open>
  \<open>Rep True n p\<close> is greedy, \<open>Rep False n p\<close> lazy. \<open>Eos\<close> is \<open>$\<close> without the MULTILINE
  flag: the end of the string, or just before a newline that ends the string.
\<close>

primrec rmatch ::
  "re \<Rightarrow> (pystr \<Rightarrow> pystr list \<Rightarrow> 'a option) \<Rightarrow> pystr \<Rightarrow> pystr list \<Rightarrow> 'a option" where
  "rmatch (Lit l) k s gs = (if take (length l) s = l then k (drop (length l) s) gs else None)"
| "rmatch (Cls p) k s gs = (case s of [] \<Rightarrow> None | c # cs \<Rightarrow> if p c then k cs gs else None)"
| "rmatch (Rep g n p) k s gs =
     (if g then greedy p n (\<lambda>s'. k s' gs) s else lazy p n (\<lambda>s'. k s' gs) s)"
| "rmatch (Opt r) k s gs = (case rmatch r k s gs of Some x \<Rightarrow> Some x | None \<Rightarrow> k s gs)"
| "rmatch (Seq a b) k s gs = rmatch a (rmatch b k) s gs"
| "rmatch (Grp r) k s gs =
     rmatch r (\<lambda>s' gs'. k s' (gs' @ [take (length s - length s') s])) s gs"
| "rmatch Eos k s gs = (if s = [] \<or> s = [10] then k s gs else None)"

text \<open>A match at the head of \<open>s\<close>: its length and its groups.\<close>

definition re_match_here :: "re \<Rightarrow> pystr \<Rightarrow> (nat \<times> pystr list) option" where
  "re_match_here r s = rmatch r (\<lambda>s' gs. Some (length s - length s', gs)) s []"

text \<open>\<open>pattern.search(s)\<close>: the match at the leftmost position that has one.\<close>

fun re_search :: "re \<Rightarrow> pystr \<Rightarrow> (nat \<times> pystr list) option" where
  "re_search r [] = re_match_here r []"
| "re_search r (c # cs) =
     (case re_match_here r (c # cs) of
        Some m \<Rightarrow> Some m
      | None \<Rightarrow> re_search r cs)"

text \<open>\<open>pattern.search(s).group(1)\<close>, \<open>None\<close> when the search finds nothing.\<close>

definition search_group1 :: "re \<Rightarrow> pystr \<Rightarrow> pystr option" where
  "search_group1 r s = (case re_search r s of Some (n, g # gs) \<Rightarrow> Some g | _ \<Rightarrow> None)"

text \<open>
  \<open>re.sub(pattern, '', s)\<close>: every non-overlapping match, leftmost first, is deleted. An
  empty match deletes nothing.
\<close>

fun re_delete :: "re \<Rightarrow> pystr \<Rightarrow> pystr" where
  "re_delete r [] = []"
| "re_delete r (c # cs) =
     (case re_match_here r (c # cs) of
        Some (Suc n, gs) \<Rightarrow> re_delete r (drop n cs)
      | _ \<Rightarrow> c # re_delete r cs)"

fun seqs :: "re list \<Rightarrow> re" where
  "seqs [] = Lit []"
| "seqs [r] = r"
| "seqs (r # rs) = Seq r (seqs rs)"

text \<open>The classes: \<open>.\<close> (anything but a newline), \<open>\s\<close>, \<open>\S\<close>, \<open>\d\<close>.\<close>

definition dot :: "nat \<Rightarrow> bool" where
  "dot c = (c \<noteq> 10)"

definition nonspace :: "nat \<Rightarrow> bool" where
  "nonspace c = (\<not> isspace c)"

text \<open>\<open>\[download\]\s+(\d+\.?\d*)%.*at\s+(\S+)\s+ETA\s+(\S+)\<close>\<close>

definition number_re :: "ucd \<Rightarrow> re" where
  "number_re U =
     Grp (seqs [Rep True 1 (isdecimal U), Opt (Cls (\<lambda>c. c = 46)), Rep True 0 (isdecimal U)])"

definition stats_pattern :: "ucd \<Rightarrow> re" where
  "stats_pattern U =
     seqs [Lit (py ''[download]''), Rep True 1 isspace, number_re U, Lit (py ''%''),
           Rep True 0 dot, Lit (py ''at''), Rep True 1 isspace, Grp (Rep True 1 nonspace),
           Rep True 1 isspace, Lit (py ''ETA''), Rep True 1 isspace,
           Grp (Rep True 1 nonspace)]"

text \<open>\<open>\[download\] Destination: (.+)\<close>\<close>

definition f_pattern :: re where
  "f_pattern = seqs [Lit (py ''[download] Destination: ''), Grp (Rep True 1 dot)]"

text \<open>\<open>\[Merger\] Merging formats into \"(.+)\"\<close>\<close>

definition f_merge :: re where
  "f_merge =
     seqs [Lit (py ''[Merger] Merging formats into ''), Lit [34], Grp (Rep True 1 dot),
           Lit [34]]"

text \<open>\<open>\[download\] (.+) has already been downloaded\<close>\<close>

definition f_exist :: re where
  "f_exist =
     seqs [Lit (py ''[download] ''), Grp (Rep True 1 dot),
           Lit (py '' has already been downloaded'')]"

text \<open>\<open>\.f\d+$\<close>\<close>

definition format_id_re :: "ucd \<Rightarrow> re" where
  "format_id_re U = seqs [Lit (py ''.f''), Rep True 1 (isdecimal U), Eos]"

text \<open>\<open>\s*\[.*?\]$\<close>\<close>

definition bracket_re :: re where
  "bracket_re = seqs [Rep True 0 isspace, Lit (py ''[''), Rep False 0 dot, Lit (py '']''), Eos]"

text \<open>\<open>(\d+\.?\d*)%\<close>\<close>

definition percent_re :: "ucd \<Rightarrow> re" where
  "percent_re U = seqs [number_re U, Lit (py ''%'')]"

text \<open>\<open>time=(\d+:\d+:\d+\.\d+)\<close>\<close>

definition time_pattern :: "ucd \<Rightarrow> re" where
  "time_pattern U =
     seqs [Lit (py ''time=''),
           Grp (seqs [Rep True 1 (isdecimal U), Lit [58], Rep True 1 (isdecimal U), Lit [58],
                      Rep True 1 (isdecimal U), Lit [46], Rep True 1 (isdecimal U)])]"

text \<open>\<open>speed=\s*(\S+)\<close>\<close>

definition speed_pattern :: re where
  "speed_pattern = seqs [Lit (py ''speed=''), Rep True 0 isspace, Grp (Rep True 1 nonspace)]"

section \<open>pathlib\<close>

text \<open>
  A \<open>Path\<close> is modelled by the string it was built from. \<open>path_name\<close> is \<open>Path(p).name\<close> on a
  POSIX system (the last component that is neither empty nor \<open>.\<close>), \<open>path_stem\<close> is
  \<open>Path(p).stem\<close> (the name without its last suffix, where a suffix starts at a dot that is
  neither the first nor the last character of the name).
\<close>

definition path_name :: "pystr \<Rightarrow> pystr" where
  "path_name p =
     (case filter (\<lambda>x. x \<noteq> [] \<and> x \<noteq> [46]) (split_on 47 p) of
        [] \<Rightarrow> []
      | x # xs \<Rightarrow> last (x # xs))"

text \<open>\<open>s.rfind(c)\<close>: the index of the last \<open>c\<close> in \<open>s\<close>, or \<open>-1\<close>.\<close>

definition rfind :: "nat \<Rightarrow> pystr \<Rightarrow> int" where
  "rfind c s =
     (if c \<in> set s then int (length s) - 1 - int (length (takeWhile (\<lambda>x. x \<noteq> c) (rev s)))
      else - 1)"

definition path_stem :: "pystr \<Rightarrow> pystr" where
  "path_stem p =
     (let name = path_name p; i = rfind 46 name
      in if 0 < i \<and> i < int (length name) - 1 then take (nat i) name else name)"

section \<open>Downloader.download\<close>

text \<open>
  A call \<open>progress_callback(p, kind, detail)\<close> is an event: the percentage (\<open>None\<close> when the
  call passes \<open>None\<close>), the kind tag and the detail text. \<open>ValueError\<close> is the only exception
  the modelled statements can raise themselves. The child processes are taken to start
  and their streams to deliver lines within the reader's limit; the callback is taken
  not to raise.
\<close>

type_synonym event = "real option \<times> string \<times> pystr"

datatype exn = ValueError

text \<open>
  Lines 90 to 93: the three announcement patterns are tried in the order destination,
  merge, already downloaded, and each one that matches overwrites \<open>detected_name\<close>.
\<close>

definition detect_name :: "pystr \<Rightarrow> pystr option" where
  "detect_name text =
     (let detected_name = None;
          detected_name =
            (case search_group1 f_pattern text of Some g \<Rightarrow> Some g | None \<Rightarrow> detected_name);
          detected_name =
            (case search_group1 f_merge text of Some g \<Rightarrow> Some g | None \<Rightarrow> detected_name);
          detected_name =
            (case search_group1 f_exist text of Some g \<Rightarrow> Some g | None \<Rightarrow> detected_name)
      in detected_name)"

text \<open>Lines 98 to 100: the title shown for a detected file name.\<close>

definition strip_format_id :: "ucd \<Rightarrow> pystr \<Rightarrow> pystr" where
  "strip_format_id U name_clean =
     (if re_search (format_id_re U) name_clean \<noteq> None then path_stem name_clean
      else name_clean)"

definition strip_bracket_suffix :: "pystr \<Rightarrow> pystr" where
  "strip_bracket_suffix name_clean = re_delete bracket_re name_clean"

definition clean_title :: "ucd \<Rightarrow> pystr \<Rightarrow> pystr" where
  "clean_title U detected_name =
     strip_bracket_suffix (strip_format_id U (path_stem detected_name))"

text \<open>Lines 95 to 102: a non-empty detected name becomes a title event.\<close>

definition title_events :: "ucd \<Rightarrow> pystr \<Rightarrow> event list" where
  "title_events U text =
     (case detect_name text of
        None \<Rightarrow> []
      | Some d \<Rightarrow> if d \<noteq> [] then [(None, ''title'', clean_title U d)] else [])"

text \<open>Lines 104 and 105: the two markers.\<close>

definition marker_events :: "pystr \<Rightarrow> event list" where
  "marker_events text =
     (if contains (py ''Sleeping'') text
      then [(None, ''download'', 128164 # py '' Wait...'')] else []) @
     (if contains (py ''[Merger]'') text
      then [(None, ''download'', 129513 # py '' Merging...'')] else [])"

text \<open>
  Lines 107 to 113: the percentage with rate and ETA, or the bare percentage. \<open>float\<close> raises
  \<open>ValueError\<close> on a string that is no number.
\<close>

definition stats_events :: "ucd \<Rightarrow> pystr \<Rightarrow> exn + event list" where
  "stats_events U text =
     (case re_search (stats_pattern U) text of
        Some (n, gs) \<Rightarrow>
          (case py_float U (gs ! 0) of
             None \<Rightarrow> Inl ValueError
           | Some p \<Rightarrow> Inr [(Some p, ''download'', (gs ! 1) @ py '' | ETA '' @ (gs ! 2))])
      | None \<Rightarrow>
          if contains (py ''[download]'') text \<and> contains (py ''%'') text then
            (case search_group1 (percent_re U) text of
               None \<Rightarrow> Inr []
             | Some g \<Rightarrow>
                 (case py_float U g of
                    None \<Rightarrow> Inl ValueError
                  | Some p \<Rightarrow> Inr [(Some p, ''download'', [])]))
          else Inr [])"

text \<open>The state of the read loop: \<open>final_filename\<close> and the events emitted so far.\<close>

record dl_state =
  final_filename :: "pystr option"
  emitted :: "event list"

text \<open>The body of the loop for one line that \<open>readline\<close> returned.\<close>

definition download_line :: "ucd \<Rightarrow> dl_state \<Rightarrow> bytes \<Rightarrow> exn + dl_state" where
  "download_line U st line =
     (let text = strip (decode_utf8 Replace line);
          detected_name = detect_name text;
          final = (case detected_name of
                     None \<Rightarrow> final_filename st
                   | Some d \<Rightarrow> if d \<noteq> [] then Some d else final_filename st)
      in case stats_events U text of
           Inl e \<Rightarrow> Inl e
         | Inr evs \<Rightarrow>
             Inr \<lparr> final_filename = final,
                   emitted = emitted st @ title_events U text @ marker_events text @ evs \<rparr>)"

text \<open>
  \<open>StreamReader.readline\<close>: the bytes up to and including the next newline, or what is left
  at the end of the stream; the second component is the rest of the stream.
\<close>

fun readline :: "bytes \<Rightarrow> bytes \<times> bytes" where
  "readline [] = ([], [])"
| "readline (b # bs) =
     (if b = CHR 0x0A then ([b], bs)
      else (case readline bs of (l, r) \<Rightarrow> (b # l, r)))"

lemma readline_length: "length (fst (readline s)) + length (snd (readline s)) = length s"
  by (induction s) (auto split: prod.splits)

lemma readline_shorter:
  assumes "(l, r) = readline s" and "l \<noteq> []"
  shows "length r < length s"
proof -
  have "length l + length r = length s"
    using readline_length [of s] assms(1) by (metis fst_conv snd_conv)
  with assms(2) show ?thesis by (cases l) auto
qed

function download_loop :: "ucd \<Rightarrow> bytes \<Rightarrow> dl_state \<Rightarrow> exn + dl_state" where
  "download_loop U stream st =
     (case readline stream of
        (line, rest) \<Rightarrow>
          if line = [] then Inr st
          else (case download_line U st line of
                  Inl e \<Rightarrow> Inl e
                | Inr st' \<Rightarrow> download_loop U rest st'))"
  by pat_completeness auto
termination
  by (relation "measure (\<lambda>(U, stream, st). length stream)") (auto intro: readline_shorter)

text \<open>
  \<open>download\<close> on a run of the child process that wrote \<open>stdout\<close> and exited with
  \<open>returncode\<close>: the events, and the path returned (\<open>None\<close> for Python's \<open>None\<close>).
\<close>

definition truthy :: "pystr option \<Rightarrow> bool" where
  "truthy v = (case v of None \<Rightarrow> False | Some s \<Rightarrow> s \<noteq> [])"

definition download :: "ucd \<Rightarrow> bytes \<Rightarrow> int \<Rightarrow> exn + (event list \<times> pystr option)" where
  "download U stdout returncode =
     (case download_loop U stdout \<lparr> final_filename = None, emitted = [] \<rparr> of
        Inl e \<Rightarrow> Inl e
      | Inr st \<Rightarrow>
          Inr (emitted st,
               if returncode = 0 \<and> truthy (final_filename st) then final_filename st
               else None))"

section \<open>Downloader.sanitize\<close>

subsection \<open>The output name\<close>

text \<open>\<open>str(n)\<close> for a natural number, as the f-string writes the counter.\<close>

fun dec_str :: "nat \<Rightarrow> pystr" where
  "dec_str n = (if n < 10 then [48 + n] else dec_str (n div 10) @ [48 + n mod 10])"

declare dec_str.simps [simp del]

text \<open>The characters \<open>< > : " / \ | ? *\<close> of the class in line 121.\<close>

definition unsafe_chars :: "nat list" where
  "unsafe_chars = [60, 62, 58, 34, 47, 92, 124, 63, 42]"

text \<open>
  Lines 121 and 123: every character of the class becomes an underscore, then the
  characters that are not printable are dropped.
\<close>

definition safe_stem :: "ucd \<Rightarrow> pystr \<Rightarrow> pystr" where
  "safe_stem U stem =
     filter (isprintable U) (map (\<lambda>c. if c \<in> set unsafe_chars then 95 else c) stem)"

text \<open>\<open>SAFE_DIR / name\<close> for a name without a slash.\<close>

definition safe_dir :: "pystr \<Rightarrow> pystr" where
  "safe_dir name = py ''/app/safe_output/'' @ name"

definition first_name :: "pystr \<Rightarrow> pystr" where
  "first_name stem = stem @ py ''_clean.mp4''"

definition numbered_name :: "pystr \<Rightarrow> nat \<Rightarrow> pystr" where
  "numbered_name stem counter = stem @ py ''_clean_'' @ dec_str counter @ py ''.mp4''"

lemma digits_value_append:
  "digits_value U acc (xs @ ys) =
     (case digits_value U acc xs of None \<Rightarrow> None | Some a \<Rightarrow> digits_value U a ys)"
  by (induction xs arbitrary: acc) (auto split: option.splits)

lemma digits_value_dec_str: "digits_value U 0 (dec_str n) = Some n"
proof (induction n rule: dec_str.induct)
  case (1 n)
  show ?case
  proof (cases "n < 10")
    case True
    then show ?thesis
      by (subst dec_str.simps) (simp add: digit_value_def)
  next
    case False
    have "digit_value U (48 + n mod 10) = Some (n mod 10)"
      by (simp add: digit_value_def)
    with False 1 show ?thesis
      by (subst dec_str.simps) (simp add: digits_value_append)
  qed
qed

lemma dec_str_inj: "dec_str m = dec_str n \<Longrightarrow> m = n"
  by (metis digits_value_dec_str option.inject)

lemma numbered_name_inj: "numbered_name stem m = numbered_name stem n \<Longrightarrow> m = n"
  by (auto simp: numbered_name_def dest: dec_str_inj)

lemma finite_numbered: "finite {k. safe_dir (numbered_name stem k) \<in> set fs}"
proof -
  have "inj (\<lambda>k. safe_dir (numbered_name stem k))"
    by (auto simp: inj_on_def safe_dir_def dest: numbered_name_inj)
  then have "finite ((\<lambda>k. safe_dir (numbered_name stem k)) -` set fs)"
    by (intro finite_vimageI) auto
  then show ?thesis by (simp add: vimage_def)
qed

text \<open>
  Lines 129 to 132, the collision loop: \<open>fs\<close> lists the paths that exist, \<open>output_path\<close> and
  \<open>counter\<close> are the loop's variables.
\<close>

function avoid_collision :: "pystr list \<Rightarrow> pystr \<Rightarrow> pystr \<Rightarrow> nat \<Rightarrow> pystr" where
  "avoid_collision fs stem output_path counter =
     (if output_path \<in> set fs
      then avoid_collision fs stem (safe_dir (numbered_name stem counter)) (counter + 1)
      else output_path)"
  by pat_completeness auto
termination
proof (relation "measure (\<lambda>(fs, stem, output_path, counter).
         card {k. counter \<le> k \<and> safe_dir (numbered_name stem k) \<in> set fs} +
         (if output_path \<in> set fs then 1 else 0))")
  show "wf (measure (\<lambda>(fs, stem, output_path, counter).
         card {k. counter \<le> k \<and> safe_dir (numbered_name stem k) \<in> set fs} +
         (if output_path \<in> set fs then 1 else 0)))"
    by simp
next
  fix fs :: "pystr list" and stem output_path :: pystr and counter :: nat
  assume ex: "output_path \<in> set fs"
  let ?A = "\<lambda>c. {k. c \<le> k \<and> safe_dir (numbered_name stem k) \<in> set fs}"
  have fin: "finite (?A counter)"
    by (rule finite_subset [OF _ finite_numbered [of stem fs]]) auto
  have "card (?A (counter + 1)) + (if safe_dir (numbered_name stem counter) \<in> set fs then 1 else 0)
        = card (?A counter)"
  proof (cases "safe_dir (numbered_name stem counter) \<in> set fs")
    case True
    have "?A counter = insert counter (?A (counter + 1))"
      using True by (auto simp: le_Suc_eq)
    moreover have "counter \<notin> ?A (counter + 1)" by simp
    moreover have "finite (?A (counter + 1))"
      by (rule finite_subset [OF _ fin]) auto
    ultimately show ?thesis using True by simp
  next
    case False
    have "?A counter = ?A (counter + 1)"
      using False by (auto simp: le_Suc_eq) (metis Suc_leI le_neq_implies_less)
    with False show ?thesis by simp
  qed
  with ex show "((fs, stem, safe_dir (numbered_name stem counter), counter + 1),
                 (fs, stem, output_path, counter))
        \<in> measure (\<lambda>(fs, stem, output_path, counter).
             card {k. counter \<le> k \<and> safe_dir (numbered_name stem k) \<in> set fs} +
             (if output_path \<in> set fs then 1 else 0))"
    by simp
qed

declare avoid_collision.simps [simp del]

text \<open>Lines 121 to 132: the output path chosen for the stem of the input path.\<close>

definition output_path_for :: "ucd \<Rightarrow> pystr list \<Rightarrow> pystr \<Rightarrow> pystr" where
  "output_path_for U fs stem =
     (let safe = safe_stem U stem
      in avoid_collision fs safe (safe_dir (first_name safe)) 1)"

subsection \<open>The duration probe\<close>

text \<open>
  What one run of \<open>get_duration\<close> meets: the child process cannot be started or read
  (\<open>ProbeProcessError\<close>), its output is no number for \<open>float\<close> or no text for \<open>decode\<close>
  (\<open>ProbeParseError\<close>), or \<open>float\<close> returns a value. The bare \<open>except\<close> turns both
  errors into \<open>None\<close>.
\<close>

datatype probe_outcome = ProbeProcessError | ProbeParseError | ProbeValue real

fun get_duration :: "probe_outcome \<Rightarrow> real option" where
  "get_duration ProbeProcessError = None"
| "get_duration ProbeParseError = None"
| "get_duration (ProbeValue d) = Some d"

subsection \<open>Progress lines\<close>

text \<open>\<open>f"{n:02d}"\<close> for an integer.\<close>

definition format_02d :: "int \<Rightarrow> pystr" where
  "format_02d n =
     (if n < 0 then 45 # dec_str (nat (- n))
      else if n < 10 then 48 # dec_str (nat n)
      else dec_str (nat n))"

text \<open>\<open>int(x)\<close> for a float: truncation towards zero.\<close>

definition py_trunc :: "real \<Rightarrow> int" where
  "py_trunc x = (if 0 \<le> x then \<lfloor>x\<rfloor> else \<lceil>x\<rceil>)"

text \<open>Lines 166 to 172: the ETA text from the elapsed wall-clock seconds and the percentage.\<close>

definition eta_str :: "real \<Rightarrow> real \<Rightarrow> pystr" where
  "eta_str elapsed pct =
     (if elapsed > 0 \<and> pct > 0 then
        (let total_estimated = elapsed * (100 / pct);
             remaining = total_estimated - elapsed;
             eta_min = py_trunc remaining div 60;
             eta_sec = py_trunc remaining mod 60
         in format_02d eta_min @ py '':'' @ format_02d eta_sec)
      else py ''--:--'')"

text \<open>
  Lines 156 to 174, the body of the inner loop for one decoded line. \<open>duration\<close> is what
  \<open>get_duration\<close> returned; it is falsy when it is \<open>None\<close> or zero. \<open>elapsed\<close> is the
  wall-clock time since the stage started, read when the line is handled. The unpacking
  \<open>h, m, s = ...\<close> and \<open>int\<close> raise \<open>ValueError\<close> when they fail.
\<close>

definition sanitize_line :: "ucd \<Rightarrow> real option \<Rightarrow> real \<Rightarrow> pystr \<Rightarrow> exn + event list" where
  "sanitize_line U duration elapsed text =
     (case search_group1 (time_pattern U) text of
        None \<Rightarrow> Inr []
      | Some g \<Rightarrow>
          (case duration of
             None \<Rightarrow> Inr []
           | Some d \<Rightarrow>
               if d = 0 then Inr []
               else
                 (let cur_time_str = hd (split_on 46 g);
                      speed_str = (case search_group1 speed_pattern text of
                                     Some sp \<Rightarrow> sp
                                   | None \<Rightarrow> py ''?x'')
                  in case map (py_int U) (split_on 58 cur_time_str) of
                       [Some h, Some m, Some s] \<Rightarrow>
                         (let curr = h * 3600 + m * 60 + s;
                              pct = min ((real curr / d) * 100) 99.9
                          in Inr [(Some pct, ''sanitize'',
                                   cur_time_str @ py '' | '' @ speed_str @ py '' | ETA '' @
                                   eta_str elapsed pct)])
                     | _ \<Rightarrow> Inl ValueError)))"

subsection \<open>Reassembling lines from the chunks\<close>

text \<open>\<open>buffer.find(b)\<close>: the index of the first \<open>b\<close>, or \<open>-1\<close>.\<close>

fun py_find :: "char \<Rightarrow> bytes \<Rightarrow> int" where
  "py_find b [] = - 1"
| "py_find b (c # cs) =
     (if c = b then 0
      else (let i = py_find b cs in if i = - 1 then - 1 else i + 1))"

text \<open>Lines 150 to 152: the index of the first carriage return or newline, or \<open>-1\<close>.\<close>

definition next_break :: "bytes \<Rightarrow> int" where
  "next_break buffer =
     (let idx_r = py_find (CHR 0x0D) buffer;
          idx_n = py_find (CHR 0x0A) buffer
      in if idx_r \<noteq> - 1 \<or> idx_n \<noteq> - 1
         then min_list (filter (\<lambda>i. i \<noteq> - 1) [idx_r, idx_n])
         else - 1)"

lemma py_find_range: "py_find b s = - 1 \<or> (0 \<le> py_find b s \<and> py_find b s < int (length s))"
  by (induction s) (auto simp: Let_def)

lemma next_break_range:
  "next_break s = - 1 \<or> (0 \<le> next_break s \<and> next_break s < int (length s))"
  using py_find_range [of "CHR 0x0D" s] py_find_range [of "CHR 0x0A" s]
  by (auto simp: next_break_def Let_def)

text \<open>
  Lines 149 to 174, the inner loop: while the buffer holds a terminator, the line before
  it is cut off, decoded, stripped and handled. \<open>clock k\<close> is the elapsed time read for
  the event that follows \<open>k\<close> earlier ones. The loop returns the buffer it leaves and the
  events so far.
\<close>

function drain ::
  "ucd \<Rightarrow> real option \<Rightarrow> (nat \<Rightarrow> real) \<Rightarrow> bytes \<Rightarrow> event list \<Rightarrow> exn + (bytes \<times> event list)"
  where
  "drain U duration clock buffer evs =
     (let idx = next_break buffer
      in if idx = - 1 then Inr (buffer, evs)
         else
           (let line = take (nat idx) buffer;
                buffer' = drop (nat idx + 1) buffer;
                text = strip (decode_utf8 Ignore line)
            in case sanitize_line U duration (clock (length evs)) text of
                 Inl e \<Rightarrow> Inl e
               | Inr new \<Rightarrow> drain U duration clock buffer' (evs @ new)))"
  by pat_completeness auto
termination
proof (relation "measure (\<lambda>(U, duration, clock, buffer, evs). length buffer)")
  show "wf (measure (\<lambda>(U, duration, clock, buffer, evs). length buffer))"
    by simp
next
  fix U :: ucd and duration :: "real option" and clock :: "nat \<Rightarrow> real"
    and buffer :: bytes and evs :: "event list" and x xa xb xc and y :: "event list"
  assume "x = next_break buffer" and "x \<noteq> - 1" and "xb = drop (nat x + 1) buffer"
  then show "((U, duration, clock, xb, evs @ y), (U, duration, clock, buffer, evs))
        \<in> measure (\<lambda>(U, duration, clock, buffer, evs). length buffer)"
    using next_break_range [of buffer] by auto
qed

declare drain.simps [simp del]

text \<open>
  What one \<open>await process.stderr.read(128)\<close> gives: bytes (none at the end of the
  stream), or an exception.
\<close>

datatype read_result = Data bytes | ReadError

text \<open>
  Lines 144 to 174, the outer loop over the reads. A read that raises and an empty read
  both leave the loop; what is left in the buffer is not handled.
\<close>

fun pump ::
  "ucd \<Rightarrow> real option \<Rightarrow> (nat \<Rightarrow> real) \<Rightarrow> read_result list \<Rightarrow> bytes \<Rightarrow> event list \<Rightarrow>
   exn + event list" where
  "pump U duration clock [] buffer evs = Inr evs"
| "pump U duration clock (ReadError # rs) buffer evs = Inr evs"
| "pump U duration clock (Data chunk # rs) buffer evs =
     (if chunk = [] then Inr evs
      else (case drain U duration clock (buffer @ chunk) evs of
              Inl e \<Rightarrow> Inl e
            | Inr (buffer', evs') \<Rightarrow> pump U duration clock rs buffer' evs'))"

text \<open>
  \<open>sanitize\<close> on the stem of the input path, the paths that exist, the outcome of the
  duration probe, the reads of the child's standard error, its return code and the clock:
  the events and the path returned (\<open>None\<close> for Python's \<open>None\<close>).
\<close>

definition sanitize ::
  "ucd \<Rightarrow> pystr list \<Rightarrow> pystr \<Rightarrow> probe_outcome \<Rightarrow> read_result list \<Rightarrow> int \<Rightarrow> (nat \<Rightarrow> real) \<Rightarrow>
   exn + (event list \<times> pystr option)" where
  "sanitize U fs input_path probe reads returncode clock =
     (let output_path = output_path_for U fs (path_stem input_path);
          duration = get_duration probe
      in case pump U duration clock reads [] [] of
           Inl e \<Rightarrow> Inl e
         | Inr evs \<Rightarrow> Inr (evs, if returncode = 0 then Some output_path else None))"

section \<open>Downloader.run_pipeline\<close>

text \<open>
  Everything one job meets outside the program: the URL, what the acquisition process
  writes and how it exits, the paths that exist when the output name is chosen, the
  outcome of the duration probe, the reads and the exit of the sanitization process, the
  clock, and whether \<open>os.remove\<close> succeeds.
\<close>

record job =
  url :: pystr
  dl_stdout :: bytes
  dl_returncode :: int
  files :: "pystr list"
  probe :: probe_outcome
  ff_reads :: "read_result list"
  ff_returncode :: int
  clock :: "nat \<Rightarrow> real"
  remove_ok :: bool

datatype tool = YtDlp | Ffprobe | Ffmpeg

text \<open>
  What a run of the pipeline leaves: the value returned, the events passed to the
  callback, the log lines, the child processes started, the paths handed to \<open>os.remove\<close>,
  and the listing \<open>files\<close> after the removal. The size statistics of lines 45 to 61 only
  write one more log line inside their own \<open>try\<close>; they are left out.
\<close>

record outcome =
  result :: "pystr option"
  events :: "event list"
  log :: "pystr list"
  launched :: "tool list"
  removals :: "pystr list"
  files_after :: "pystr list"

definition run_pipeline :: "ucd \<Rightarrow> job \<Rightarrow> exn + outcome" where
  "run_pipeline U j =
     (case download U (dl_stdout j) (dl_returncode j) of
        Inl e \<Rightarrow> Inl e
      | Inr (dl_events, None) \<Rightarrow>
          Inr \<lparr> result = None,
                events = dl_events,
                log = [py ''[Start] Extraction: '' @ url j,
                       py ''[Failed] Extraction failed: '' @ url j],
                launched = [YtDlp],
                removals = [],
                files_after = files j \<rparr>
      | Inr (dl_events, Some raw_file) \<Rightarrow>
          (case sanitize U (files j) raw_file (probe j) (ff_reads j) (ff_returncode j) (clock j) of
             Inl e \<Rightarrow> Inl e
           | Inr (san_events, Some clean_file) \<Rightarrow>
               Inr \<lparr> result = Some clean_file,
                     events = dl_events @ [(Some 0, ''download_done'', py ''Prep...'')] @ san_events,
                     log = [py ''[Start] Extraction: '' @ url j,
                            py ''[DL Done] '' @ path_name raw_file,
                            py ''[Start] Sanitization: '' @ path_name raw_file,
                            py ''[Complete] Cleaned: '' @ path_name clean_file],
                     launched = [YtDlp, Ffprobe, Ffmpeg],
                     removals = [raw_file],
                     files_after =
                       (if remove_ok j then removeAll raw_file (files j) else files j) \<rparr>
           | Inr (san_events, None) \<Rightarrow>
               Inr \<lparr> result = None,
                     events = dl_events @ [(Some 0, ''download_done'', py ''Prep...'')] @ san_events,
                     log = [py ''[Start] Extraction: '' @ url j,
                            py ''[DL Done] '' @ path_name raw_file,
                            py ''[Start] Sanitization: '' @ path_name raw_file,
                            128128 # py '' [Failed] Sanitization died: '' @ path_name raw_file],
                     launched = [YtDlp, Ffprobe, Ffmpeg],
                     removals = [],
                     files_after = files j \<rparr>))"

section \<open>The semaphore\<close>

text \<open>
  \<open>task_semaphore = asyncio.Semaphore(MAX_CONCURRENT_TASKS)\<close> is a counter that starts at 3.
  Every job runs \<open>run_pipeline\<close> as a task of its own, and the whole body of
  \<open>run_pipeline\<close> is inside \<open>async with task_semaphore\<close>: entering the block takes a permit
  (the task waits while the counter is zero), and leaving it, by either \<open>return\<close> or by an
  exception, gives the permit back. A state of the system is the counter and, for every
  job, its stage, whether its task is inside the block, and the child processes it has
  started so far.
\<close>

definition MAX_CONCURRENT_TASKS :: nat where
  "MAX_CONCURRENT_TASKS = 3"

datatype stage = Queued | Acquiring | Sanitizing | Done | Failed | Crashed

record task =
  stage :: stage
  holds :: bool
  started :: "tool list"

record system =
  permits :: nat
  tasks :: "task list"

definition initial :: "job list \<Rightarrow> system" where
  "initial jobs =
     \<lparr> permits = MAX_CONCURRENT_TASKS,
       tasks = map (\<lambda>j. \<lparr> stage = Queued, holds = False, started = [] \<rparr>) jobs \<rparr>"

text \<open>
  The stage a job is in when \<open>download\<close> has returned (line 34 returns on \<open>None\<close>), and when
  the whole of \<open>run_pipeline\<close> has returned. \<open>Crashed\<close> stands for an exception that leaves
  the block; the two stages are shown below never to raise, so no job reaches it.
\<close>

definition after_download :: "ucd \<Rightarrow> job \<Rightarrow> stage" where
  "after_download U j =
     (case download U (dl_stdout j) (dl_returncode j) of
        Inl e \<Rightarrow> Crashed
      | Inr (evs, None) \<Rightarrow> Failed
      | Inr (evs, Some raw_file) \<Rightarrow> Sanitizing)"

definition after_sanitize :: "ucd \<Rightarrow> job \<Rightarrow> stage" where
  "after_sanitize U j =
     (case run_pipeline U j of
        Inl e \<Rightarrow> Crashed
      | Inr out \<Rightarrow> (case result out of None \<Rightarrow> Failed | Some p \<Rightarrow> Done))"

text \<open>
  The steps of one task. \<open>enter\<close>: the task takes a permit and, with no suspension point
  in between, \<open>download\<close> starts the acquisition process. \<open>downloaded\<close>: \<open>download\<close> returned
  a file, and \<open>sanitize\<close> starts the probe and the sanitization process. \<open>download_ended\<close>:
  \<open>download\<close> returned \<open>None\<close> (or raised), the task leaves the block and the permit goes
  back. \<open>sanitized\<close>: \<open>sanitize\<close> has returned (or raised), the task leaves the block and the
  permit goes back.
\<close>

inductive step :: "ucd \<Rightarrow> job list \<Rightarrow> system \<Rightarrow> system \<Rightarrow> bool" for U :: ucd and jobs :: "job list"
  where
  enter:
    "i < length (tasks s) \<Longrightarrow> stage (tasks s ! i) = Queued \<Longrightarrow> 0 < permits s \<Longrightarrow>
     step U jobs s
       \<lparr> permits = permits s - 1,
         tasks = (tasks s)[i := \<lparr> stage = Acquiring, holds = True, started = [YtDlp] \<rparr>] \<rparr>"
| downloaded:
    "i < length (tasks s) \<Longrightarrow> stage (tasks s ! i) = Acquiring \<Longrightarrow>
     after_download U (jobs ! i) = Sanitizing \<Longrightarrow>
     step U jobs s
       \<lparr> permits = permits s,
         tasks = (tasks s)[i := (tasks s ! i)
                   \<lparr> stage := Sanitizing,
                     started := started (tasks s ! i) @ [Ffprobe, Ffmpeg] \<rparr>] \<rparr>"
| download_ended:
    "i < length (tasks s) \<Longrightarrow> stage (tasks s ! i) = Acquiring \<Longrightarrow>
     after_download U (jobs ! i) \<noteq> Sanitizing \<Longrightarrow>
     step U jobs s
       \<lparr> permits = permits s + 1,
         tasks = (tasks s)[i := (tasks s ! i)
                   \<lparr> stage := after_download U (jobs ! i), holds := False \<rparr>] \<rparr>"
| sanitized:
    "i < length (tasks s) \<Longrightarrow> stage (tasks s ! i) = Sanitizing \<Longrightarrow>
     step U jobs s
       \<lparr> permits = permits s + 1,
         tasks = (tasks s)[i := (tasks s ! i)
                   \<lparr> stage := after_sanitize U (jobs ! i), holds := False \<rparr>] \<rparr>"

inductive reachable :: "ucd \<Rightarrow> job list \<Rightarrow> system \<Rightarrow> bool" for U :: ucd and jobs :: "job list"
  where
  reach_initial: "reachable U jobs (initial jobs)"
| reach_step: "reachable U jobs s \<Longrightarrow> step U jobs s t \<Longrightarrow> reachable U jobs t"

text \<open>The number of tasks that hold a permit, and the number of jobs in a running stage.\<close>

definition holders :: "system \<Rightarrow> nat" where
  "holders s = length (filter holds (tasks s))"

definition running :: "system \<Rightarrow> nat" where
  "running s = length (filter (\<lambda>t. stage t = Acquiring \<or> stage t = Sanitizing) (tasks s))"

text \<open>
  What is true of a job's task at every moment: a queued job is outside the block and
  has started nothing; a job in a running stage is inside the block and has started the
  processes of its stage; a job that has ended is outside the block, and its stage and
  the processes it started are those of the run of \<open>run_pipeline\<close>.
\<close>

definition task_ok :: "ucd \<Rightarrow> job \<Rightarrow> task \<Rightarrow> bool" where
  "task_ok U j t =
     (case stage t of
        Queued \<Rightarrow> \<not> holds t \<and> started t = []
      | Acquiring \<Rightarrow> holds t \<and> started t = [YtDlp]
      | Sanitizing \<Rightarrow>
          holds t \<and> started t = [YtDlp, Ffprobe, Ffmpeg] \<and> after_download U j = Sanitizing
      | Done \<Rightarrow>
          \<not> holds t \<and>
          (\<exists>out. run_pipeline U j = Inr out \<and> result out \<noteq> None \<and> started t = launched out)
      | Failed \<Rightarrow>
          \<not> holds t \<and>
          (\<exists>out. run_pipeline U j = Inr out \<and> result out = None \<and> started t = launched out)
      | Crashed \<Rightarrow> \<not> holds t)"

section \<open>Notions for the statements\<close>

text \<open>
  \<open>matches r w g rest\<close> says that \<open>r\<close> can match the word \<open>w\<close> in front of \<open>rest\<close>, closing the
  groups \<open>g\<close>. Whatever the matcher finds is a match in this sense; the lemmas below read
  the shape of the captured groups off it.
\<close>

primrec matches :: "re \<Rightarrow> pystr \<Rightarrow> pystr list \<Rightarrow> pystr \<Rightarrow> bool" where
  "matches (Lit l) w g rest = (w = l \<and> g = [])"
| "matches (Cls p) w g rest = (length w = 1 \<and> list_all p w \<and> g = [])"
| "matches (Rep gr n p) w g rest = (n \<le> length w \<and> list_all p w \<and> g = [])"
| "matches (Opt r) w g rest = (matches r w g rest \<or> (w = [] \<and> g = []))"
| "matches (Seq a b) w g rest =
     (\<exists>w1 w2 g1 g2. w = w1 @ w2 \<and> g = g1 @ g2 \<and> matches a w1 g1 (w2 @ rest) \<and>
        matches b w2 g2 rest)"
| "matches (Grp r) w g rest = (\<exists>g'. g = g' @ [w] \<and> matches r w g' rest)"
| "matches Eos w g rest = (w = [] \<and> g = [] \<and> (rest = [] \<or> rest = [10]))"

text \<open>A job for the examples.\<close>

definition example_job :: job where
  "example_job =
     \<lparr> url = py ''u'', dl_stdout = [], dl_returncode = 0, files = [],
       probe = ProbeParseError, ff_reads = [], ff_returncode = 0, clock = (\<lambda>k. 0),
       remove_ok = True \<rparr>"

text \<open>
  The lines \<open>readline\<close> returns over a whole run, the text the loop sees for a line, and the
  file names the three announcement patterns find, in the order of the lines.
\<close>

function read_lines :: "bytes \<Rightarrow> bytes list" where
  "read_lines stream =
     (case readline stream of
        (line, rest) \<Rightarrow> if line = [] then [] else line # read_lines rest)"
  by pat_completeness auto
termination
  by (relation "measure length") (auto intro: readline_shorter)

declare read_lines.simps [simp del]

definition line_text :: "bytes \<Rightarrow> pystr" where
  "line_text line = strip (decode_utf8 Replace line)"

definition announcements :: "bytes \<Rightarrow> pystr list" where
  "announcements stdout = List.map_filter (\<lambda>line. detect_name (line_text line)) (read_lines stdout)"

text \<open>The example job with a given output and exit code of the acquisition process.\<close>

definition job_with :: "bytes \<Rightarrow> int \<Rightarrow> job" where
  "job_with out rc = example_job \<lparr> dl_stdout := out, dl_returncode := rc \<rparr>"

text \<open>The definitions a concrete run is evaluated with.\<close>

named_theorems py_eval
declare py_def [py_eval] detect_name_def [py_eval] search_group1_def [py_eval]
  re_match_here_def [py_eval] f_pattern_def [py_eval] f_merge_def [py_eval] f_exist_def [py_eval]
  dot_def [py_eval] isspace_def [py_eval] nonspace_def [py_eval] isdecimal_def [py_eval]
  digit_value_def [py_eval] ascii_ucd_def [py_eval] strip_def [py_eval] decode_utf8_def [py_eval]
  utf8_step_def [py_eval] title_events_def [py_eval] clean_title_def [py_eval]
  strip_format_id_def [py_eval] strip_bracket_suffix_def [py_eval] path_stem_def [py_eval]
  path_name_def [py_eval] rfind_def [py_eval] marker_events_def [py_eval] stats_events_def [py_eval]
  download_line_def [py_eval] download_def [py_eval] truthy_def [py_eval]
  stats_pattern_def [py_eval] number_re_def [py_eval] percent_re_def [py_eval]
  format_id_re_def [py_eval] bracket_re_def [py_eval] time_pattern_def [py_eval]
  speed_pattern_def [py_eval] py_float_def [py_eval] py_int_def [py_eval] Let_def [py_eval]
  line_text_def [py_eval] announcements_def [py_eval] List.map_filter_def [py_eval]

text \<open>The text a group of the time pattern can hold: \<open>H:M:S.F\<close>, four runs of digits.\<close>

definition timestamp :: "ucd \<Rightarrow> pystr \<Rightarrow> pystr \<Rightarrow> pystr \<Rightarrow> pystr \<Rightarrow> pystr \<Rightarrow> bool" where
  "timestamp U g h m s f =
     (g = h @ [58] @ m @ [58] @ s @ [46] @ f \<and>
      list_all (isdecimal U) h \<and> h \<noteq> [] \<and> list_all (isdecimal U) m \<and> m \<noteq> [] \<and>
      list_all (isdecimal U) s \<and> s \<noteq> [] \<and> list_all (isdecimal U) f \<and> f \<noteq> [])"

text \<open>
  The claim's reading of the percentage, in its own words: the position the whole
  timestamp \<open>H:M:S.F\<close> stands for in seconds, fraction included, and
  \<open>min (current_seconds / total_seconds * 100) 99.9\<close>.
\<close>

definition timestamp_seconds :: "ucd \<Rightarrow> pystr \<Rightarrow> real option" where
  "timestamp_seconds U g =
     (case split_on 46 g of
        [hms, f] \<Rightarrow>
          (case (map (py_int U) (split_on 58 hms), digits_value U 0 f) of
             ([Some h, Some m, Some s], Some fv) \<Rightarrow>
               Some (real (h * 3600 + m * 60 + s) + real fv / 10 ^ length f)
           | _ \<Rightarrow> None)
      | _ \<Rightarrow> None)"

definition claimed_percent :: "real \<Rightarrow> real \<Rightarrow> real" where
  "claimed_percent current_seconds total_seconds =
     min (current_seconds / total_seconds * 100) 99.9"


declare sanitize_line_def [py_eval] eta_str_def [py_eval] py_trunc_def [py_eval]
  format_02d_def [py_eval] sanitize_def [py_eval] next_break_def [py_eval]
  output_path_for_def [py_eval] safe_stem_def [py_eval] unsafe_chars_def [py_eval]
  isprintable_def [py_eval] first_name_def [py_eval] numbered_name_def [py_eval]
  safe_dir_def [py_eval]

text \<open>
  A job whose acquisition announces \<open>/app/downloads/a.mp4\<close> and exits with code zero; the
  exit code of the sanitization process and the success of \<open>os.remove\<close> are given.
\<close>

definition sample_job :: "int \<Rightarrow> bool \<Rightarrow> job" where
  "sample_job rc ok =
     \<lparr> url = py ''u'',
       dl_stdout = ''[download] Destination: /app/downloads/a.mp4'' @ [CHR 0x0A],
       dl_returncode = 0, files = [py ''/app/downloads/a.mp4''],
       probe = ProbeParseError, ff_reads = [], ff_returncode = rc, clock = (\<lambda>k. 0),
       remove_ok = ok \<rparr>"

text \<open>The invariant of the system.\<close>

definition system_ok :: "ucd \<Rightarrow> job list \<Rightarrow> system \<Rightarrow> bool" where
  "system_ok U jobs s =
     (length (tasks s) = length jobs \<and>
      permits s + holders s = MAX_CONCURRENT_TASKS \<and>
      (\<forall>i<length jobs. task_ok U (jobs ! i) (tasks s ! i)))"

text \<open>Five jobs: the first and the last two announce no file, the second and the third do.\<close>

definition demo_jobs :: "job list" where
  "demo_jobs = [example_job, sample_job 0 True, sample_job 1 True, example_job, example_job]"

text \<open>
  The two line terminators of the sanitization stage, and a change of the bytes of a
  stream that turns terminators into terminators and leaves every other byte alone.
\<close>

definition is_break :: "char \<Rightarrow> bool" where
  "is_break c = (c = CHR 0x0D \<or> c = CHR 0x0A)"

definition keeps_breaks :: "(char \<Rightarrow> char) \<Rightarrow> bool" where
  "keeps_breaks f = (\<forall>c. is_break (f c) = is_break c \<and> (\<not> is_break c \<longrightarrow> f c = c))"

definition cr_to_nl :: "char \<Rightarrow> char" where
  "cr_to_nl c = (if c = CHR 0x0D then CHR 0x0A else c)"

fun map_read :: "(char \<Rightarrow> char) \<Rightarrow> read_result \<Rightarrow> read_result" where
  "map_read f (Data chunk) = Data (map f chunk)"
| "map_read f ReadError = ReadError"

section \<open>The matcher finds only matches\<close>

lemma greedy_sound:
  "greedy p n k s = Some x \<Longrightarrow>
   \<exists>w s'. s = w @ s' \<and> n \<le> length w \<and> list_all p w \<and> k s' = Some x"
proof (induction s arbitrary: n)
  case Nil
  then show ?case by (auto split: if_splits)
next
  case (Cons c cs)
  show ?case
  proof (cases "p c \<and> greedy p (n - 1) k cs = Some x")
    case True
    from Cons.IH [of "n - 1"] True obtain w s' where
      "cs = w @ s'" "n - 1 \<le> length w" "list_all p w" "k s' = Some x" by blast
    with True have "c # cs = (c # w) @ s' \<and> n \<le> length (c # w) \<and> list_all p (c # w) \<and> k s' = Some x"
      by auto
    then show ?thesis by blast
  next
    case False
    with Cons.prems have "n = 0 \<and> k (c # cs) = Some x"
      by (auto split: if_splits option.splits)
    then have "c # cs = [] @ (c # cs) \<and> n \<le> length ([]::pystr) \<and> list_all p [] \<and> k (c # cs) = Some x"
      by simp
    then show ?thesis by blast
  qed
qed

lemma lazy_sound:
  "lazy p n k s = Some x \<Longrightarrow>
   \<exists>w s'. s = w @ s' \<and> n \<le> length w \<and> list_all p w \<and> k s' = Some x"
proof (induction s arbitrary: n)
  case Nil
  then show ?case by (auto split: if_splits)
next
  case (Cons c cs)
  show ?case
  proof (cases "n = 0 \<and> k (c # cs) = Some x")
    case True
    then have "c # cs = [] @ (c # cs) \<and> n \<le> length ([]::pystr) \<and> list_all p [] \<and> k (c # cs) = Some x"
      by simp
    then show ?thesis by blast
  next
    case False
    with Cons.prems have pc: "p c" and rec: "lazy p (n - 1) k cs = Some x"
      by (auto split: if_splits option.splits)
    from Cons.IH [OF rec] obtain w s' where
      "cs = w @ s'" "n - 1 \<le> length w" "list_all p w" "k s' = Some x" by blast
    with pc have "c # cs = (c # w) @ s' \<and> n \<le> length (c # w) \<and> list_all p (c # w) \<and> k s' = Some x"
      by auto
    then show ?thesis by blast
  qed
qed

lemma rmatch_sound:
  "rmatch r k s gs = Some x \<Longrightarrow>
   \<exists>w g s'. s = w @ s' \<and> matches r w g s' \<and> k s' (gs @ g) = Some x"
proof (induction r arbitrary: k s gs x)
  case (Lit l)
  then have "s = l @ drop (length l) s \<and> k (drop (length l) s) gs = Some x"
    by (auto split: if_splits) (metis append_take_drop_id)
  then show ?case by (metis append_Nil2 matches.simps(1))
next
  case (Cls p)
  then obtain c cs where "s = c # cs" "p c" "k cs gs = Some x"
    by (auto split: list.splits if_splits)
  then have "s = [c] @ cs \<and> matches (Cls p) [c] [] cs \<and> k cs (gs @ []) = Some x" by simp
  then show ?case by blast
next
  case (Rep g n p)
  then have "\<exists>w s'. s = w @ s' \<and> n \<le> length w \<and> list_all p w \<and> k s' gs = Some x"
    using greedy_sound [of p n "\<lambda>s'. k s' gs" s x] lazy_sound [of p n "\<lambda>s'. k s' gs" s x]
    by (auto split: if_splits)
  then obtain w s' where "s = w @ s'" "matches (Rep g n p) w [] s'" "k s' (gs @ []) = Some x"
    by auto
  then show ?case by blast
next
  case (Opt r)
  show ?case
  proof (cases "rmatch r k s gs")
    case None
    with Opt.prems have "s = [] @ s \<and> matches (Opt r) [] [] s \<and> k s (gs @ []) = Some x" by simp
    then show ?thesis by blast
  next
    case (Some y)
    with Opt.prems have "rmatch r k s gs = Some x" by simp
    from Opt.IH [OF this] show ?thesis by auto
  qed
next
  case (Seq a b)
  from Seq.prems have "rmatch a (rmatch b k) s gs = Some x" by simp
  from Seq.IH(1) [OF this] obtain w1 g1 s1 where
    a: "s = w1 @ s1" "matches a w1 g1 s1" "rmatch b k s1 (gs @ g1) = Some x" by blast
  from Seq.IH(2) [OF a(3)] obtain w2 g2 s2 where
    b: "s1 = w2 @ s2" "matches b w2 g2 s2" "k s2 ((gs @ g1) @ g2) = Some x" by blast
  from a b have "s = (w1 @ w2) @ s2 \<and> matches (Seq a b) (w1 @ w2) (g1 @ g2) s2 \<and>
      k s2 (gs @ (g1 @ g2)) = Some x"
    by auto
  then show ?case by blast
next
  case (Grp r)
  from Grp.prems have
    "rmatch r (\<lambda>s' gs'. k s' (gs' @ [take (length s - length s') s])) s gs = Some x" by simp
  from Grp.IH [OF this] obtain w g s' where
    "s = w @ s'" "matches r w g s'" "k s' ((gs @ g) @ [take (length s - length s') s]) = Some x"
    by blast
  then have "s = w @ s' \<and> matches (Grp r) w (g @ [w]) s' \<and> k s' (gs @ (g @ [w])) = Some x"
    by auto
  then show ?case by blast
next
  case Eos
  then have "s = [] @ s \<and> matches Eos [] [] s \<and> k s (gs @ []) = Some x"
    by (auto split: if_splits)
  then show ?case by blast
qed

lemma re_match_here_sound:
  assumes "re_match_here r s = Some (n, G)"
  shows "\<exists>w s'. s = w @ s' \<and> matches r w G s' \<and> n = length w"
proof -
  from assms rmatch_sound [of r "\<lambda>s' gs. Some (length s - length s', gs)" s "[]" "(n, G)"]
  obtain w g s' where "s = w @ s'" "matches r w g s'" "Some (length s - length s', [] @ g) = Some (n, G)"
    unfolding re_match_here_def by blast
  then have "s = w @ s' \<and> matches r w G s' \<and> n = length w" by auto
  then show ?thesis by blast
qed

lemma re_search_sound:
  "re_search r s = Some (n, G) \<Longrightarrow>
   \<exists>pre w s'. s = pre @ w @ s' \<and> matches r w G s' \<and> n = length w"
proof (induction s)
  case Nil
  then have "re_match_here r [] = Some (n, G)" by simp
  from re_match_here_sound [OF this] show ?case by (metis append_Nil)
next
  case (Cons c cs)
  show ?case
  proof (cases "re_match_here r (c # cs)")
    case None
    with Cons.prems have "re_search r cs = Some (n, G)" by simp
    from Cons.IH [OF this] obtain pre w s' where
      "cs = pre @ w @ s'" "matches r w G s'" "n = length w" by blast
    then have "c # cs = (c # pre) @ w @ s' \<and> matches r w G s' \<and> n = length w" by simp
    then show ?thesis by blast
  next
    case (Some m)
    with Cons.prems have "re_match_here r (c # cs) = Some (n, G)" by simp
    from re_match_here_sound [OF this] show ?thesis by (metis append_Nil)
  qed
qed

lemma search_group1_sound:
  assumes "search_group1 r s = Some g"
  shows "\<exists>pre w s' gs. s = pre @ w @ s' \<and> matches r w (g # gs) s'"
proof -
  from assms obtain n gs where "re_search r s = Some (n, g # gs)"
    by (auto simp: search_group1_def split: option.splits prod.splits list.splits)
  from re_search_sound [OF this] show ?thesis by blast
qed

section \<open>The captured groups\<close>

lemma isdecimal_not_punct: "isdecimal U c \<Longrightarrow> c \<noteq> 46 \<and> c \<noteq> 58"
  by (auto simp: isdecimal_def digit_value_def)

lemma digits_value_Some:
  "list_all (isdecimal U) d \<Longrightarrow> \<exists>v. digits_value U acc d = Some v"
  by (induction d arbitrary: acc) (auto simp: isdecimal_def)

lemma py_int_Some:
  "list_all (isdecimal U) d \<Longrightarrow> d \<noteq> [] \<Longrightarrow> \<exists>v. py_int U d = Some v"
  using digits_value_Some [of U d 0] by (simp add: py_int_def)

lemma takeWhile_digits:
  "list_all (isdecimal U) d \<Longrightarrow>
   takeWhile (\<lambda>c. c \<noteq> 46) (d @ r) = d @ takeWhile (\<lambda>c. c \<noteq> 46) r"
  by (induction d) (auto dest: isdecimal_not_punct)

lemma py_float_number:
  assumes "list_all (isdecimal U) d1" and "d1 \<noteq> []" and "list_all (isdecimal U) d2"
  shows "\<exists>v. py_float U (d1 @ d2) = Some v" and "\<exists>v. py_float U (d1 @ [46] @ d2) = Some v"
proof -
  have all: "list_all (isdecimal U) (d1 @ d2)" using assms by simp
  have "takeWhile (\<lambda>c. c \<noteq> 46) ((d1 @ d2) @ []) = d1 @ d2"
    using takeWhile_digits [OF all, of "[]"] by simp
  then have tw: "takeWhile (\<lambda>c. c \<noteq> 46) (d1 @ d2) = d1 @ d2" by simp
  from py_int_Some [OF all] assms(2) obtain v where "py_int U (d1 @ d2) = Some v" by auto
  then show "\<exists>v. py_float U (d1 @ d2) = Some v"
    by (simp add: py_float_def tw)
  have tw2: "takeWhile (\<lambda>c. c \<noteq> 46) (d1 @ [46] @ d2) = d1"
    using takeWhile_digits [OF assms(1), of "[46] @ d2"] by simp
  from py_int_Some [OF assms(1,2)] obtain i where i: "py_int U d1 = Some i" by auto
  from digits_value_Some [OF assms(3), of 0] obtain f where f: "digits_value U 0 d2 = Some f"
    by auto
  show "\<exists>v. py_float U (d1 @ [46] @ d2) = Some v"
    unfolding py_float_def tw2 by (simp add: i f)
qed

lemma number_re_shape:
  assumes "matches (number_re U) w G rest"
  shows "G = [w] \<and> (\<exists>v. py_float U w = Some v)"
proof -
  from assms have G: "G = [w]"
    by (auto simp: number_re_def)
  from assms obtain d1 o1 d2 where w: "w = d1 @ o1 @ d2"
    and d1: "1 \<le> length d1" "list_all (isdecimal U) d1"
    and o1: "(length o1 = 1 \<and> list_all (\<lambda>c. c = 46) o1) \<or> o1 = []"
    and d2: "list_all (isdecimal U) d2"
    unfolding number_re_def seqs.simps matches.simps by blast
  from d1 have ne: "d1 \<noteq> []" by auto
  from o1 have "o1 = [46] \<or> o1 = []"
    by (cases o1) auto
  with w py_float_number [OF d1(2) ne d2] have "\<exists>v. py_float U w = Some v" by auto
  with G show ?thesis by simp
qed

lemma stats_group_float:
  assumes "re_search (stats_pattern U) s = Some (n, gs)"
  shows "\<exists>v. py_float U (gs ! 0) = Some v"
proof -
  from re_search_sound [OF assms] obtain w s' where "matches (stats_pattern U) w gs s'" by blast
  then obtain wn gn rn gtail where "matches (number_re U) wn gn rn" "gs = gn @ gtail"
    unfolding stats_pattern_def seqs.simps matches.simps by (metis append_Nil)
  with number_re_shape [of U wn gn rn] show ?thesis by auto
qed

lemma percent_group_float:
  assumes "search_group1 (percent_re U) s = Some g"
  shows "\<exists>v. py_float U g = Some v"
proof -
  from search_group1_sound [OF assms] obtain w s' gs where
    "matches (percent_re U) w (g # gs) s'" by blast
  then obtain wn gn rn where "matches (number_re U) wn gn rn" "g # gs = gn"
    unfolding percent_re_def seqs.simps matches.simps by (metis append_Nil2)
  with number_re_shape [of U wn gn rn] show ?thesis by auto
qed

lemma stats_events_total: "\<exists>evs. stats_events U s = Inr evs"
proof (cases "re_search (stats_pattern U) s")
  case None
  show ?thesis
  proof (cases "search_group1 (percent_re U) s")
    case None
    with \<open>re_search (stats_pattern U) s = None\<close> show ?thesis
      by (simp add: stats_events_def)
  next
    case (Some g)
    from percent_group_float [OF Some] obtain v where "py_float U g = Some v" by blast
    with Some \<open>re_search (stats_pattern U) s = None\<close> show ?thesis
      by (simp add: stats_events_def)
  qed
next
  case (Some m)
  obtain n gs where m: "m = (n, gs)" by (cases m)
  from stats_group_float [of U s n gs] Some m obtain v where "py_float U (gs ! 0) = Some v"
    by auto
  with Some m show ?thesis
    by (simp add: stats_events_def)
qed

lemma group_nonempty:
  "matches f_pattern w (g # gs) rest \<Longrightarrow> g \<noteq> []"
  "matches f_merge w (g # gs) rest \<Longrightarrow> g \<noteq> []"
  "matches f_exist w (g # gs) rest \<Longrightarrow> g \<noteq> []"
  unfolding f_pattern_def f_merge_def f_exist_def seqs.simps matches.simps
  by auto

lemma detect_name_nonempty:
  assumes "detect_name s = Some d"
  shows "d \<noteq> []"
proof -
  from assms have "search_group1 f_pattern s = Some d \<or> search_group1 f_merge s = Some d \<or>
      search_group1 f_exist s = Some d"
    by (auto simp: detect_name_def split: option.splits)
  then show ?thesis
    using search_group1_sound [of f_pattern s d] search_group1_sound [of f_merge s d]
      search_group1_sound [of f_exist s d] group_nonempty
    by blast
qed

section \<open>The result of the acquisition stage\<close>

lemma download_line_result:
  "\<exists>evs. download_line U st line =
     Inr \<lparr> final_filename =
             (case detect_name (line_text line) of None \<Rightarrow> final_filename st | Some d \<Rightarrow> Some d),
           emitted = emitted st @ title_events U (line_text line) @
                     marker_events (line_text line) @ evs \<rparr> \<and>
     stats_events U (line_text line) = Inr evs"
proof -
  from stats_events_total [of U "line_text line"] obtain evs where
    evs: "stats_events U (line_text line) = Inr evs" by blast
  have "(case detect_name (line_text line) of None \<Rightarrow> final_filename st
         | Some d \<Rightarrow> if d \<noteq> [] then Some d else final_filename st) =
        (case detect_name (line_text line) of None \<Rightarrow> final_filename st | Some d \<Rightarrow> Some d)"
    using detect_name_nonempty [of "line_text line"] by (auto split: option.splits)
  with evs show ?thesis
    by (simp add: download_line_def line_text_def [symmetric] Let_def)
qed

lemma download_loop_final:
  "\<exists>st'. download_loop U stream st = Inr st' \<and>
     final_filename st' =
       (if announcements stream = [] then final_filename st
        else Some (last (announcements stream)))"
proof (induction U stream st rule: download_loop.induct)
  case (1 U stream st)
  obtain line rest where rl: "readline stream = (line, rest)" by (cases "readline stream")
  show ?case
  proof (cases "line = []")
    case True
    with rl have "announcements stream = []"
      by (simp add: announcements_def read_lines.simps [of stream] List.map_filter_simps)
    with rl True show ?thesis
      by (simp add: download_loop.simps [of U stream st])
  next
    case False
    from download_line_result [of U st line] obtain st1 where
      st1: "download_line U st line = Inr st1"
      and f1: "final_filename st1 =
         (case detect_name (line_text line) of None \<Rightarrow> final_filename st | Some d \<Rightarrow> Some d)"
      by force
    from "1.IH" [OF rl [symmetric] False st1] obtain st' where
      st': "download_loop U rest st1 = Inr st'"
      and f': "final_filename st' =
         (if announcements rest = [] then final_filename st1
          else Some (last (announcements rest)))" by blast
    have ann: "announcements stream =
        (case detect_name (line_text line) of None \<Rightarrow> [] | Some d \<Rightarrow> [d]) @ announcements rest"
      using rl False
      by (simp add: announcements_def read_lines.simps [of stream] List.map_filter_simps
          split: option.splits)
    have "download_loop U stream st = Inr st'"
      using rl False st1 st' by (simp add: download_loop.simps [of U stream st])
    moreover have "final_filename st' =
       (if announcements stream = [] then final_filename st
        else Some (last (announcements stream)))"
      using f' f1 ann by (auto split: option.splits)
    ultimately show ?thesis by blast
  qed
qed

lemma download_result:
  "\<exists>evs. download U stdout rc =
     Inr (evs, if rc = 0 \<and> announcements stdout \<noteq> [] then Some (last (announcements stdout))
               else None)"
proof -
  from download_loop_final [of U stdout "\<lparr> final_filename = None, emitted = [] \<rparr>"]
  obtain st' where st': "download_loop U stdout \<lparr> final_filename = None, emitted = [] \<rparr> = Inr st'"
    and f: "final_filename st' =
       (if announcements stdout = [] then None else Some (last (announcements stdout)))"
    by auto
  have ne: "announcements stdout \<noteq> [] \<Longrightarrow> last (announcements stdout) \<noteq> []"
  proof -
    assume a: "announcements stdout \<noteq> []"
    then have "last (announcements stdout) \<in> set (announcements stdout)" by simp
    then obtain line where "detect_name (line_text line) = Some (last (announcements stdout))"
      by (auto simp: announcements_def List.map_filter_def)
    then show ?thesis by (rule detect_name_nonempty)
  qed
  show ?thesis
    using st' f ne by (auto simp: download_def truthy_def)
qed

lemma run_pipeline_no_file:
  assumes "download U (dl_stdout j) (dl_returncode j) = Inr (evs, None)"
  shows "\<exists>out. run_pipeline U j = Inr out \<and> result out = None \<and> launched out = [YtDlp]"
  using assms by (simp add: run_pipeline_def)

text \<open>
  C2. The acquisition stage never raises on its own, and it returns a path if and only if
  the process exited with code zero and at least one file-name announcement was seen on
  its output; the path is then the one announced last. In every other case it returns
  \<open>None\<close>, and the pipeline then ends with no result after having started the acquisition
  process once and nothing else.
\<close>

theorem acquisition_succeeds_iff:
  "\<exists>evs r. download U (dl_stdout j) (dl_returncode j) = Inr (evs, r) \<and>
     (r \<noteq> None) = (dl_returncode j = 0 \<and> announcements (dl_stdout j) \<noteq> []) \<and>
     (r \<noteq> None \<longrightarrow> r = Some (last (announcements (dl_stdout j)))) \<and>
     (r = None \<longrightarrow>
        (\<exists>out. run_pipeline U j = Inr out \<and> result out = None \<and> launched out = [YtDlp]))"
proof -
  from download_result [of U "dl_stdout j" "dl_returncode j"] obtain evs where
    d: "download U (dl_stdout j) (dl_returncode j) =
      Inr (evs, if dl_returncode j = 0 \<and> announcements (dl_stdout j) \<noteq> []
                then Some (last (announcements (dl_stdout j))) else None)" by blast
  show ?thesis
  proof (cases "dl_returncode j = 0 \<and> announcements (dl_stdout j) \<noteq> []")
    case True
    with d show ?thesis by auto
  next
    case False
    with d have d': "download U (dl_stdout j) (dl_returncode j) = Inr (evs, None)" by auto
    from run_pipeline_no_file [OF d'] d' False show ?thesis by auto
  qed
qed

lemma announcements_example:
  "announcements (''[download] Destination: a.mp4'' @ [CHR 0x0A]) = [py ''a.mp4'']"
  by (simp add: py_eval read_lines.simps)

lemma announcements_none_example:
  "announcements (''[youtube] Extracting URL'' @ [CHR 0x0A]) = []"
  by (simp add: py_eval read_lines.simps)

theorem acquisition_succeeds_iff_witness:
  "(\<exists>evs. download ascii_ucd (''[download] Destination: a.mp4'' @ [CHR 0x0A]) 0 =
      Inr (evs, Some (py ''a.mp4''))) \<and>
   (\<exists>evs. download ascii_ucd (''[download] Destination: a.mp4'' @ [CHR 0x0A]) 1 =
      Inr (evs, None)) \<and>
   (\<exists>evs. download ascii_ucd (''[youtube] Extracting URL'' @ [CHR 0x0A]) 0 = Inr (evs, None)) \<and>
   (\<exists>out. run_pipeline ascii_ucd (job_with (''[download] Destination: a.mp4'' @ [CHR 0x0A]) 1) =
      Inr out \<and> result out = None \<and> launched out = [YtDlp])"
  using acquisition_succeeds_iff [of ascii_ucd "job_with (''[download] Destination: a.mp4'' @ [CHR 0x0A]) 0"]
    acquisition_succeeds_iff [of ascii_ucd "job_with (''[download] Destination: a.mp4'' @ [CHR 0x0A]) 1"]
    acquisition_succeeds_iff [of ascii_ucd "job_with (''[youtube] Extracting URL'' @ [CHR 0x0A]) 0"]
    announcements_example announcements_none_example
  by (simp add: job_with_def example_job_def) (metis option.distinct(1))

section \<open>Which announcement wins\<close>

text \<open>
  C10. On one line the already-downloaded pattern wins over the merger pattern, which
  wins over the destination pattern; over a whole run the path returned on success is the
  name announced last, whatever its kind.
\<close>

theorem announcement_precedence:
  "(search_group1 f_exist s \<noteq> None \<longrightarrow> detect_name s = search_group1 f_exist s) \<and>
   (search_group1 f_exist s = None \<and> search_group1 f_merge s \<noteq> None \<longrightarrow>
      detect_name s = search_group1 f_merge s) \<and>
   (search_group1 f_exist s = None \<and> search_group1 f_merge s = None \<longrightarrow>
      detect_name s = search_group1 f_pattern s) \<and>
   (\<exists>evs. download U stdout rc =
      Inr (evs, if rc = 0 \<and> announcements stdout \<noteq> []
                then Some (last (announcements stdout)) else None))"
  using download_result [of U stdout rc]
  by (auto simp: detect_name_def split: option.splits)

lemma three_patterns_example:
  "search_group1 f_pattern
     (py ''[download] Destination: [Merger] Merging formats into '' @ [34] @ py ''x.mp4'' @ [34] @
      py '' has already been downloaded'') =
   Some (py ''[Merger] Merging formats into '' @ [34] @ py ''x.mp4'' @ [34] @
         py '' has already been downloaded'') \<and>
   search_group1 f_merge
     (py ''[download] Destination: [Merger] Merging formats into '' @ [34] @ py ''x.mp4'' @ [34] @
      py '' has already been downloaded'') = Some (py ''x.mp4'') \<and>
   search_group1 f_exist
     (py ''[download] Destination: [Merger] Merging formats into '' @ [34] @ py ''x.mp4'' @ [34] @
      py '' has already been downloaded'') =
   Some (py ''Destination: [Merger] Merging formats into '' @ [34] @ py ''x.mp4'' @ [34])"
  by (simp add: py_eval)

lemma two_patterns_example:
  "search_group1 f_pattern
     (py ''[download] Destination: [Merger] Merging formats into '' @ [34] @ py ''x.mp4'' @ [34]) =
   Some (py ''[Merger] Merging formats into '' @ [34] @ py ''x.mp4'' @ [34]) \<and>
   search_group1 f_merge
     (py ''[download] Destination: [Merger] Merging formats into '' @ [34] @ py ''x.mp4'' @ [34]) =
   Some (py ''x.mp4'') \<and>
   search_group1 f_exist
     (py ''[download] Destination: [Merger] Merging formats into '' @ [34] @ py ''x.mp4'' @ [34]) =
   None"
  by (simp add: py_eval)

lemma announcements_two_example:
  "announcements (''[download] Destination: a.f1.mp4'' @ [CHR 0x0A] @
                  ''[Merger] Merging formats into '' @ [CHR 0x22] @ ''a.mp4'' @ [CHR 0x22, CHR 0x0A]) =
   [py ''a.f1.mp4'', py ''a.mp4'']"
  by (simp add: py_eval read_lines.simps)

lemma one_pattern_example:
  "search_group1 f_pattern (py ''[download] Destination: a.mp4'') = Some (py ''a.mp4'') \<and>
   search_group1 f_merge (py ''[download] Destination: a.mp4'') = None \<and>
   search_group1 f_exist (py ''[download] Destination: a.mp4'') = None"
  by (simp add: py_eval)

theorem announcement_precedence_witness:
  "detect_name
     (py ''[download] Destination: [Merger] Merging formats into '' @ [34] @ py ''x.mp4'' @ [34] @
      py '' has already been downloaded'') =
   Some (py ''Destination: [Merger] Merging formats into '' @ [34] @ py ''x.mp4'' @ [34]) \<and>
   detect_name
     (py ''[download] Destination: [Merger] Merging formats into '' @ [34] @ py ''x.mp4'' @ [34]) =
   Some (py ''x.mp4'') \<and>
   detect_name (py ''[download] Destination: a.mp4'') = Some (py ''a.mp4'') \<and>
   (\<exists>evs. download ascii_ucd
      (''[download] Destination: a.f1.mp4'' @ [CHR 0x0A] @
       ''[Merger] Merging formats into '' @ [CHR 0x22] @ ''a.mp4'' @ [CHR 0x22, CHR 0x0A]) 0 =
      Inr (evs, Some (py ''a.mp4'')))"
  using announcement_precedence [of
      "py ''[download] Destination: [Merger] Merging formats into '' @ [34] @ py ''x.mp4'' @ [34] @
       py '' has already been downloaded''" ascii_ucd
      "''[download] Destination: a.f1.mp4'' @ [CHR 0x0A] @
       ''[Merger] Merging formats into '' @ [CHR 0x22] @ ''a.mp4'' @ [CHR 0x22, CHR 0x0A]" 0]
    announcement_precedence [of
      "py ''[download] Destination: [Merger] Merging formats into '' @ [34] @ py ''x.mp4'' @ [34]"
      ascii_ucd "[]" 0]
    announcement_precedence [of "py ''[download] Destination: a.mp4''" ascii_ucd "[]" 0]
    three_patterns_example two_patterns_example one_pattern_example announcements_two_example
  by simp

section \<open>The output path does not collide\<close>

lemma avoid_collision_spec:
  "avoid_collision fs stem out c \<notin> set fs \<and>
   (out \<notin> set fs \<longrightarrow> avoid_collision fs stem out c = out) \<and>
   (out \<in> set fs \<longrightarrow>
      (\<exists>k\<ge>c. avoid_collision fs stem out c = safe_dir (numbered_name stem k) \<and>
         (\<forall>i. c \<le> i \<and> i < k \<longrightarrow> safe_dir (numbered_name stem i) \<in> set fs)))"
proof (induction fs stem out c rule: avoid_collision.induct)
  case (1 fs stem out c)
  show ?case
  proof (cases "out \<in> set fs")
    case False
    then show ?thesis by (simp add: avoid_collision.simps [of fs stem out c])
  next
    case True
    let ?next = "safe_dir (numbered_name stem c)"
    have eq: "avoid_collision fs stem out c = avoid_collision fs stem ?next (c + 1)"
      using True by (simp add: avoid_collision.simps [of fs stem out c])
    note IH = "1.IH" [OF True]
    show ?thesis
    proof (cases "?next \<in> set fs")
      case False
      with IH have "avoid_collision fs stem ?next (c + 1) = ?next" by simp
      with eq False True show ?thesis by auto
    next
      case nx: True
      with IH obtain k where k: "c + 1 \<le> k"
        "avoid_collision fs stem ?next (c + 1) = safe_dir (numbered_name stem k)"
        "\<forall>i. c + 1 \<le> i \<and> i < k \<longrightarrow> safe_dir (numbered_name stem i) \<in> set fs"
        by auto
      have "\<forall>i. c \<le> i \<and> i < k \<longrightarrow> safe_dir (numbered_name stem i) \<in> set fs"
      proof (intro allI impI)
        fix i assume "c \<le> i \<and> i < k"
        then have "i = c \<or> (c + 1 \<le> i \<and> i < k)" by auto
        with nx k(3) show "safe_dir (numbered_name stem i) \<in> set fs" by auto
      qed
      moreover have "c \<le> k" using k(1) by simp
      moreover have "avoid_collision fs stem out c \<notin> set fs" using IH eq by simp
      ultimately show ?thesis using True eq k(2) by auto
    qed
  qed
qed

text \<open>
  C7. For every title the path chosen does not exist among the listed paths. It is the
  first candidate \<open><stem>_clean.mp4\<close> when that does not exist; otherwise it is
  \<open><stem>_clean_k.mp4\<close> for the least \<open>k\<close> from 1 on whose path does not exist, every smaller
  number being taken. Choosing again for the same title once the chosen path exists gives
  a different path.
\<close>

theorem output_path_is_fresh:
  "output_path_for U fs stem \<notin> set fs \<and>
   (safe_dir (first_name (safe_stem U stem)) \<notin> set fs \<longrightarrow>
      output_path_for U fs stem = safe_dir (first_name (safe_stem U stem))) \<and>
   (safe_dir (first_name (safe_stem U stem)) \<in> set fs \<longrightarrow>
      (\<exists>k\<ge>1. output_path_for U fs stem = safe_dir (numbered_name (safe_stem U stem) k) \<and>
         (\<forall>i. 1 \<le> i \<and> i < k \<longrightarrow>
            safe_dir (numbered_name (safe_stem U stem) i) \<in> set fs))) \<and>
   output_path_for U (output_path_for U fs stem # fs) stem \<noteq> output_path_for U fs stem"
proof -
  let ?s = "safe_stem U stem"
  let ?first = "safe_dir (first_name ?s)"
  have a: "output_path_for U gs stem = avoid_collision gs ?s ?first 1" for gs
    by (simp add: output_path_for_def Let_def)
  have "avoid_collision (output_path_for U fs stem # fs) ?s ?first 1
        \<notin> set (output_path_for U fs stem # fs)"
    using avoid_collision_spec [of "output_path_for U fs stem # fs" ?s ?first 1] by blast
  then have "output_path_for U (output_path_for U fs stem # fs) stem \<noteq> output_path_for U fs stem"
    unfolding a [of "output_path_for U fs stem # fs"] by auto
  moreover note avoid_collision_spec [of fs ?s ?first 1, folded a [of fs]]
  ultimately show ?thesis by blast
qed

lemma output_path_example:
  "output_path_for ascii_ucd
     [py ''/app/safe_output/My_ Video_clean.mp4'', py ''/app/safe_output/My_ Video_clean_1.mp4'']
     (py ''My: Video'') = py ''/app/safe_output/My_ Video_clean_2.mp4''"
  by (simp add: output_path_for_def safe_stem_def unsafe_chars_def isprintable_def first_name_def
      numbered_name_def safe_dir_def py_def avoid_collision.simps dec_str.simps Let_def)

lemma first_name_example:
  "safe_dir (first_name (safe_stem ascii_ucd (py ''My: Video''))) =
   py ''/app/safe_output/My_ Video_clean.mp4''"
  by (simp add: safe_stem_def unsafe_chars_def isprintable_def first_name_def safe_dir_def py_def)

lemma first_free_example:
  "output_path_for ascii_ucd [] (py ''My: Video'') = py ''/app/safe_output/My_ Video_clean.mp4''"
  by (simp add: py_eval avoid_collision.simps)

theorem output_path_is_fresh_witness:
  "output_path_for ascii_ucd
     [py ''/app/safe_output/My_ Video_clean.mp4'', py ''/app/safe_output/My_ Video_clean_1.mp4'']
     (py ''My: Video'') = py ''/app/safe_output/My_ Video_clean_2.mp4'' \<and>
   safe_dir (first_name (safe_stem ascii_ucd (py ''My: Video''))) \<in>
     set [py ''/app/safe_output/My_ Video_clean.mp4'', py ''/app/safe_output/My_ Video_clean_1.mp4''] \<and>
   py ''/app/safe_output/My_ Video_clean_2.mp4'' \<notin>
     set [py ''/app/safe_output/My_ Video_clean.mp4'', py ''/app/safe_output/My_ Video_clean_1.mp4''] \<and>
   output_path_for ascii_ucd
     [py ''/app/safe_output/My_ Video_clean_2.mp4'', py ''/app/safe_output/My_ Video_clean.mp4'',
      py ''/app/safe_output/My_ Video_clean_1.mp4'']
     (py ''My: Video'') \<noteq> py ''/app/safe_output/My_ Video_clean_2.mp4'' \<and>
   safe_dir (first_name (safe_stem ascii_ucd (py ''My: Video''))) \<notin> set [] \<and>
   output_path_for ascii_ucd [] (py ''My: Video'') = py ''/app/safe_output/My_ Video_clean.mp4''"
  using output_path_is_fresh [of ascii_ucd
      "[py ''/app/safe_output/My_ Video_clean.mp4'', py ''/app/safe_output/My_ Video_clean_1.mp4'']"
      "py ''My: Video''"]
    output_path_is_fresh [of ascii_ucd "[]" "py ''My: Video''"]
  by (simp only: output_path_example first_name_example first_free_example) simp

section \<open>The output name is safe\<close>

lemma dec_str_digits: "c \<in> set (dec_str n) \<Longrightarrow> 48 \<le> c \<and> c \<le> 57"
proof (induction n arbitrary: c rule: dec_str.induct)
  case (1 n)
  show ?case
  proof (cases "n < 10")
    case True
    with "1.prems" show ?thesis by (simp add: dec_str.simps [of n])
  next
    case False
    with "1.prems" have "c \<in> set (dec_str (n div 10)) \<or> c = 48 + n mod 10"
      by (auto simp: dec_str.simps [of n])
    moreover have "n mod 10 < 10" by simp
    ultimately show ?thesis using "1.IH" [OF False] by auto
  qed
qed

lemma unsafe_printable: "c \<in> set unsafe_chars \<Longrightarrow> isprintable U c"
  by (auto simp: unsafe_chars_def isprintable_def)

lemma safe_stem_alt:
  "safe_stem U stem =
     map (\<lambda>c. if c \<in> set unsafe_chars then 95 else c) (filter (isprintable U) stem)"
proof -
  have "isprintable U (if c \<in> set unsafe_chars then 95 else c) = isprintable U c" for c
    using unsafe_printable [of c U] by (auto simp: isprintable_def)
  then have "(isprintable U \<circ> (\<lambda>c. if c \<in> set unsafe_chars then 95 else c)) = isprintable U"
    by (auto simp: fun_eq_iff)
  then show ?thesis
    by (simp add: safe_stem_def filter_map)
qed

lemma safe_stem_chars:
  "c \<in> set (safe_stem U stem) \<Longrightarrow> c \<notin> set unsafe_chars \<and> isprintable U c"
  by (auto simp: safe_stem_def unsafe_chars_def)

lemma suffix_chars:
  "c \<in> set (py ''_clean.mp4'') \<or> c \<in> set (py ''_clean_'') \<or> c \<in> set (py ''.mp4'') \<or>
   (48 \<le> c \<and> c \<le> 57) \<Longrightarrow> c \<notin> set unsafe_chars \<and> isprintable U c"
  by (auto simp: py_def unsafe_chars_def isprintable_def)

lemma output_path_shape:
  "output_path_for U fs stem = safe_dir (safe_stem U stem @ py ''_clean.mp4'') \<or>
   (\<exists>k. output_path_for U fs stem =
      safe_dir (safe_stem U stem @ py ''_clean_'' @ dec_str k @ py ''.mp4''))"
  using avoid_collision_spec [of fs "safe_stem U stem" "safe_dir (first_name (safe_stem U stem))" 1]
  by (auto simp: output_path_for_def Let_def first_name_def numbered_name_def)

text \<open>
  C6. For every title the name of the output file is the title with each of
  \<open>< > : " / \ | ? *\<close> replaced by an underscore and every non-printable character
  dropped, all other characters kept as they are and in their order (whatever the
  character database says of the code points beyond ASCII), followed by \<open>_clean.mp4\<close> or
  \<open>_clean_k.mp4\<close>; no character of the name is one of the nine, and none is non-printable.
\<close>

theorem output_name_is_safe:
  "\<exists>name tail.
     output_path_for U fs stem = safe_dir name \<and>
     name = map (\<lambda>c. if c \<in> set unsafe_chars then 95 else c) (filter (isprintable U) stem) @ tail \<and>
     (tail = py ''_clean.mp4'' \<or> (\<exists>k. tail = py ''_clean_'' @ dec_str k @ py ''.mp4'')) \<and>
     (\<forall>c\<in>set name. c \<notin> set unsafe_chars \<and> isprintable U c)"
proof -
  let ?s = "safe_stem U stem"
  from output_path_shape [of U fs stem] obtain tail where
    p: "output_path_for U fs stem = safe_dir (?s @ tail)"
    and t: "tail = py ''_clean.mp4'' \<or> (\<exists>k. tail = py ''_clean_'' @ dec_str k @ py ''.mp4'')"
    by blast
  have "c \<notin> set unsafe_chars \<and> isprintable U c" if "c \<in> set tail" for c
  proof -
    from t that have "c \<in> set (py ''_clean.mp4'') \<or> c \<in> set (py ''_clean_'') \<or>
        c \<in> set (py ''.mp4'') \<or> (48 \<le> c \<and> c \<le> 57)"
      using dec_str_digits [of c] by auto
    then show ?thesis by (rule suffix_chars)
  qed
  then have "\<forall>c\<in>set (?s @ tail). c \<notin> set unsafe_chars \<and> isprintable U c"
    using safe_stem_chars [of _ U stem] by auto
  with p t show ?thesis
    unfolding safe_stem_alt [symmetric] by blast
qed

lemma output_name_example:
  "output_path_for ascii_ucd [] [77, 121, 58, 7, 26085, 26412, 63] =
   safe_dir ([77, 121, 95, 26085, 26412, 95] @ py ''_clean.mp4'')"
  by (simp add: output_path_for_def safe_stem_def unsafe_chars_def isprintable_def first_name_def
      safe_dir_def py_def avoid_collision.simps Let_def ascii_ucd_def)

theorem output_name_is_safe_witness:
  "output_path_for ascii_ucd [] [77, 121, 58, 7, 26085, 26412, 63] =
     safe_dir ([77, 121, 95, 26085, 26412, 95] @ py ''_clean.mp4'') \<and>
   list_all (\<lambda>c. c \<notin> set unsafe_chars \<and> isprintable ascii_ucd c)
     ([77, 121, 95, 26085, 26412, 95] @ py ''_clean.mp4'')"
proof -
  from output_name_is_safe [of ascii_ucd "[]" "[77, 121, 58, 7, 26085, 26412, 63]"]
  obtain name where n: "output_path_for ascii_ucd [] [77, 121, 58, 7, 26085, 26412, 63] = safe_dir name"
    and safe: "\<forall>c\<in>set name. c \<notin> set unsafe_chars \<and> isprintable ascii_ucd c" by blast
  from n output_name_example have "name = [77, 121, 95, 26085, 26412, 95] @ py ''_clean.mp4''"
    by (simp add: safe_dir_def)
  with safe output_name_example show ?thesis
    by (simp only: list_all_iff)
qed

section \<open>The sanitization stage never raises\<close>

lemma sanitize_line_no_duration: "sanitize_line U None elapsed s = Inr []"
  by (simp add: sanitize_line_def split: option.splits)

lemma split_on_no_sep: "sep \<notin> set a \<Longrightarrow> split_on sep a = [a]"
  by (induction a) auto

lemma split_on_append: "sep \<notin> set a \<Longrightarrow> split_on sep (a @ sep # b) = a # split_on sep b"
  by (induction a) auto

lemma digits_no_punct: "list_all (isdecimal U) d \<Longrightarrow> 46 \<notin> set d \<and> 58 \<notin> set d"
  using isdecimal_not_punct [of U] by (auto simp: list_all_iff)

lemma time_pattern_shape:
  assumes "matches (time_pattern U) w G rest"
  shows "\<exists>g h m s f. G = [g] \<and> timestamp U g h m s f"
proof -
  from assms obtain h m s f where
    "G = [h @ [58] @ m @ [58] @ s @ [46] @ f]"
    "1 \<le> length h" "list_all (isdecimal U) h" "1 \<le> length m" "list_all (isdecimal U) m"
    "1 \<le> length s" "list_all (isdecimal U) s" "1 \<le> length f" "list_all (isdecimal U) f"
    unfolding time_pattern_def seqs.simps matches.simps by auto
  then have "G = [h @ [58] @ m @ [58] @ s @ [46] @ f] \<and>
      timestamp U (h @ [58] @ m @ [58] @ s @ [46] @ f) h m s f"
    by (auto simp: timestamp_def)
  then show ?thesis by blast
qed

lemma timestamp_fields:
  assumes "timestamp U g h m s f"
  shows "hd (split_on 46 g) = h @ [58] @ m @ [58] @ s"
    and "\<exists>hv mv sv. map (py_int U) (split_on 58 (hd (split_on 46 g))) = [Some hv, Some mv, Some sv]"
proof -
  from assms have g: "g = h @ [58] @ m @ [58] @ s @ [46] @ f"
    and dh: "list_all (isdecimal U) h" "h \<noteq> []" and dm: "list_all (isdecimal U) m" "m \<noteq> []"
    and ds: "list_all (isdecimal U) s" "s \<noteq> []"
    by (auto simp: timestamp_def)
  have "46 \<notin> set (h @ [58] @ m @ [58] @ s)"
    using digits_no_punct [OF dh(1)] digits_no_punct [OF dm(1)] digits_no_punct [OF ds(1)] by simp
  from split_on_append [OF this, of f] g show hd: "hd (split_on 46 g) = h @ [58] @ m @ [58] @ s"
    by simp
  have "split_on 58 (h @ 58 # m @ 58 # s) = h # split_on 58 (m @ 58 # s)"
    using digits_no_punct [OF dh(1)] by (intro split_on_append) simp
  moreover have "split_on 58 (m @ 58 # s) = m # split_on 58 s"
    using digits_no_punct [OF dm(1)] by (intro split_on_append) simp
  moreover have "split_on 58 s = [s]"
    using digits_no_punct [OF ds(1)] by (intro split_on_no_sep) simp
  ultimately have sp: "split_on 58 (hd (split_on 46 g)) = [h, m, s]"
    using hd by simp
  from py_int_Some [OF dh] py_int_Some [OF dm] py_int_Some [OF ds]
  show "\<exists>hv mv sv. map (py_int U) (split_on 58 (hd (split_on 46 g))) = [Some hv, Some mv, Some sv]"
    unfolding sp by auto
qed

lemma time_group_fields:
  assumes "search_group1 (time_pattern U) s = Some g"
  shows "\<exists>hv mv sv. map (py_int U) (split_on 58 (hd (split_on 46 g))) = [Some hv, Some mv, Some sv]"
proof -
  from search_group1_sound [OF assms] obtain w s' gs where
    "matches (time_pattern U) w (g # gs) s'" by blast
  from time_pattern_shape [OF this] obtain h m sec f where "timestamp U g h m sec f" by auto
  then show ?thesis by (rule timestamp_fields(2))
qed

lemma sanitize_line_total: "\<exists>evs. sanitize_line U duration elapsed s = Inr evs"
proof (cases "search_group1 (time_pattern U) s")
  case None
  then show ?thesis by (simp add: sanitize_line_def)
next
  case (Some g)
  from time_group_fields [OF Some] obtain hv mv sv where
    "map (py_int U) (split_on 58 (hd (split_on 46 g))) = [Some hv, Some mv, Some sv]" by auto
  with Some show ?thesis
    by (simp add: sanitize_line_def Let_def split: option.splits)
qed

lemma drain_total:
  "\<exists>buffer' evs'. drain U duration clk buffer evs = Inr (buffer', evs') \<and>
     (duration = None \<longrightarrow> evs' = evs)"
proof (induction U duration clk buffer evs rule: drain.induct)
  case (1 U duration clk buffer evs)
  show ?case
  proof (cases "next_break buffer = - 1")
    case True
    then show ?thesis
      by (simp add: drain.simps [of U duration clk buffer evs])
  next
    case False
    let ?text = "strip (decode_utf8 Ignore (take (nat (next_break buffer)) buffer))"
    from sanitize_line_total [of U duration "clk (length evs)" ?text] obtain new where
      new: "sanitize_line U duration (clk (length evs)) ?text = Inr new" by blast
    have nil: "duration = None \<longrightarrow> new = []"
      using new sanitize_line_no_duration [of U "clk (length evs)" ?text] by auto
    from "1.IH" [OF refl False refl refl refl new]
    obtain buffer' evs' where
      r: "drain U duration clk (drop (nat (next_break buffer) + 1) buffer) (evs @ new) =
            Inr (buffer', evs')"
      and e: "duration = None \<longrightarrow> evs' = evs @ new" by blast
    have "drain U duration clk buffer evs = Inr (buffer', evs')"
      using False new r by (simp add: drain.simps [of U duration clk buffer evs] Let_def)
    with e nil show ?thesis by auto
  qed
qed

lemma pump_total:
  "\<exists>evs'. pump U duration clk reads buffer evs = Inr evs' \<and> (duration = None \<longrightarrow> evs' = evs)"
proof (induction reads arbitrary: buffer evs)
  case Nil
  show ?case by simp
next
  case (Cons r rs)
  show ?case
  proof (cases r)
    case ReadError
    then show ?thesis by simp
  next
    case (Data chunk)
    show ?thesis
    proof (cases "chunk = []")
      case True
      with Data show ?thesis by simp
    next
      case False
      from drain_total [of U duration clk "buffer @ chunk" evs] obtain b1 e1 where
        d: "drain U duration clk (buffer @ chunk) evs = Inr (b1, e1)"
        and e: "duration = None \<longrightarrow> e1 = evs" by blast
      from Cons.IH [of b1 e1] obtain evs' where
        "pump U duration clk rs b1 e1 = Inr evs'" "duration = None \<longrightarrow> evs' = e1" by blast
      with d e Data False show ?thesis by auto
    qed
  qed
qed

lemma sanitize_result:
  "\<exists>evs. sanitize U fs input_path p reads rc clk =
     Inr (evs, if rc = 0 then Some (output_path_for U fs (path_stem input_path)) else None) \<and>
     (get_duration p = None \<longrightarrow> evs = [])"
proof -
  from pump_total [of U "get_duration p" clk reads "[]" "[]"] obtain evs where
    "pump U (get_duration p) clk reads [] [] = Inr evs" "get_duration p = None \<longrightarrow> evs = []"
    by auto
  then show ?thesis
    by (auto simp: sanitize_def Let_def)
qed

section \<open>The percentage of the sanitization stage\<close>

text \<open>
  C4, as amended. On every line in which the time pattern finds a timestamp \<open>H:M:S.F\<close>,
  when the duration is known and not zero, exactly one progress event is emitted, and its
  percentage is \<open>min (whole / duration * 100) 99.9\<close>, where \<open>whole\<close> is the number of whole
  seconds \<open>H * 3600 + M * 60 + S\<close>: the fraction \<open>F\<close> of the timestamp is discarded. The
  percentage is below 100. With a duration of zero nothing is emitted. The line
  \<open>frame=100 time=00:00:30.00 speed=1.5x\<close> with a duration of 60 seconds gives 50.
\<close>

theorem sanitize_percent:
  assumes "search_group1 (time_pattern U) s = Some g" and "d \<noteq> 0"
  shows "(\<exists>h m sec f hv mv sv detail.
     timestamp U g h m sec f \<and>
     py_int U h = Some hv \<and> py_int U m = Some mv \<and> py_int U sec = Some sv \<and>
     sanitize_line U (Some d) elapsed s =
       Inr [(Some (min (real (hv * 3600 + mv * 60 + sv) / d * 100) 99.9), ''sanitize'', detail)] \<and>
     min (real (hv * 3600 + mv * 60 + sv) / d * 100) 99.9 < 100) \<and>
     sanitize_line U (Some 0) elapsed s = Inr []"
proof -
  from search_group1_sound [OF assms(1)] obtain w s' gs where
    "matches (time_pattern U) w (g # gs) s'" by blast
  from time_pattern_shape [OF this] obtain h m sec f where ts: "timestamp U g h m sec f" by auto
  then have dh: "list_all (isdecimal U) h" "h \<noteq> []" and dm: "list_all (isdecimal U) m" "m \<noteq> []"
    and ds: "list_all (isdecimal U) sec" "sec \<noteq> []"
    by (auto simp: timestamp_def)
  from py_int_Some [OF dh] py_int_Some [OF dm] py_int_Some [OF ds] obtain hv mv sv where
    v: "py_int U h = Some hv" "py_int U m = Some mv" "py_int U sec = Some sv" by auto
  have hd: "hd (split_on 46 g) = h @ [58] @ m @ [58] @ sec"
    by (rule timestamp_fields(1) [OF ts])
  have "split_on 58 (h @ 58 # m @ 58 # sec) = h # split_on 58 (m @ 58 # sec)"
    using digits_no_punct [OF dh(1)] by (intro split_on_append) simp
  moreover have "split_on 58 (m @ 58 # sec) = m # split_on 58 sec"
    using digits_no_punct [OF dm(1)] by (intro split_on_append) simp
  moreover have "split_on 58 sec = [sec]"
    using digits_no_punct [OF ds(1)] by (intro split_on_no_sep) simp
  ultimately have sp: "split_on 58 (hd (split_on 46 g)) = [h, m, sec]"
    using hd by simp
  have "\<exists>detail. sanitize_line U (Some d) elapsed s =
       Inr [(Some (min (real (hv * 3600 + mv * 60 + sv) / d * 100) 99.9), ''sanitize'', detail)]"
    using assms sp v by (simp add: sanitize_line_def Let_def)
  moreover have "min (real (hv * 3600 + mv * 60 + sv) / d * 100) 99.9 < 100"
    by simp
  ultimately have "\<exists>h m sec f hv mv sv detail.
     timestamp U g h m sec f \<and>
     py_int U h = Some hv \<and> py_int U m = Some mv \<and> py_int U sec = Some sv \<and>
     sanitize_line U (Some d) elapsed s =
       Inr [(Some (min (real (hv * 3600 + mv * 60 + sv) / d * 100) 99.9), ''sanitize'', detail)] \<and>
     min (real (hv * 3600 + mv * 60 + sv) / d * 100) 99.9 < 100"
    using ts v by blast
  moreover have "sanitize_line U (Some 0) elapsed s = Inr []"
    by (simp add: sanitize_line_def split: option.splits)
  ultimately show ?thesis by (rule conjI)
qed

lemma time_group_example:
  "search_group1 (time_pattern ascii_ucd) (py ''frame=100 time=00:00:30.00 speed=1.5x'') =
   Some (py ''00:00:30.00'')"
  by (simp add: py_eval)

lemma sanitize_line_example:
  "sanitize_line ascii_ucd (Some 60) 10 (py ''frame=100 time=00:00:30.00 speed=1.5x'') =
   Inr [(Some 50, ''sanitize'', py ''00:00:30 | 1.5x | ETA 00:10'')]"
  by (simp add: py_eval dec_str.simps)

lemma sanitize_example:
  "sanitize ascii_ucd [] (py ''/app/downloads/a.mp4'') (ProbeValue 60)
     [Data (''frame=100 time=00:00:30.00 speed=1.5x'' @ [CHR 0x0D])] 0 (\<lambda>k. 10) =
   Inr ([(Some 50, ''sanitize'', py ''00:00:30 | 1.5x | ETA 00:10'')],
        Some (py ''/app/safe_output/a_clean.mp4''))"
  by (simp add: py_eval dec_str.simps drain.simps avoid_collision.simps)

theorem sanitize_percent_witness:
  "search_group1 (time_pattern ascii_ucd) (py ''frame=100 time=00:00:30.00 speed=1.5x'') =
     Some (py ''00:00:30.00'') \<and>
   (60::real) \<noteq> 0 \<and>
   sanitize_line ascii_ucd (Some 60) 10 (py ''frame=100 time=00:00:30.00 speed=1.5x'') =
     Inr [(Some 50, ''sanitize'', py ''00:00:30 | 1.5x | ETA 00:10'')] \<and>
   sanitize ascii_ucd [] (py ''/app/downloads/a.mp4'') (ProbeValue 60)
     [Data (''frame=100 time=00:00:30.00 speed=1.5x'' @ [CHR 0x0D])] 0 (\<lambda>k. 10) =
   Inr ([(Some 50, ''sanitize'', py ''00:00:30 | 1.5x | ETA 00:10'')],
        Some (py ''/app/safe_output/a_clean.mp4'')) \<and>
   sanitize_line ascii_ucd (Some 0) 10 (py ''frame=100 time=00:00:30.00 speed=1.5x'') = Inr []"
  using sanitize_percent [OF time_group_example, of 60 10]
    time_group_example sanitize_line_example sanitize_example
  by simp

text \<open>
  The line \<open>frame=1 time=00:00:00.99 speed=1.5x\<close> with a duration of one second: the
  timestamp stands for 0.99 seconds, for which the formula gives 99, and the event
  carries 0.
\<close>

theorem fraction_counterexample:
  "search_group1 (time_pattern ascii_ucd) (py ''frame=1 time=00:00:00.99 speed=1.5x'') =
     Some (py ''00:00:00.99'') \<and>
   timestamp_seconds ascii_ucd (py ''00:00:00.99'') = Some (99 / 100) \<and>
   claimed_percent (99 / 100) 1 = 99 \<and>
   sanitize_line ascii_ucd (Some 1) 10 (py ''frame=1 time=00:00:00.99 speed=1.5x'') =
     Inr [(Some 0, ''sanitize'', py ''00:00:00 | 1.5x | ETA --:--'')]"
  by (simp add: py_eval timestamp_seconds_def claimed_percent_def)

section \<open>The raw file after sanitization\<close>

lemma run_pipeline_sanitized:
  assumes "download U (dl_stdout j) (dl_returncode j) = Inr (dl_events, Some raw_file)"
  shows "\<exists>out san_events.
     run_pipeline U j = Inr out \<and>
     sanitize U (files j) raw_file (probe j) (ff_reads j) (ff_returncode j) (clock j) =
       Inr (san_events, result out) \<and>
     result out = (if ff_returncode j = 0
                   then Some (output_path_for U (files j) (path_stem raw_file)) else None) \<and>
     events out = dl_events @ [(Some 0, ''download_done'', py ''Prep...'')] @ san_events \<and>
     (get_duration (probe j) = None \<longrightarrow> san_events = []) \<and>
     launched out = [YtDlp, Ffprobe, Ffmpeg] \<and>
     removals out = (if ff_returncode j = 0 then [raw_file] else []) \<and>
     files_after out = (if ff_returncode j = 0 \<and> remove_ok j
                        then removeAll raw_file (files j) else files j)"
proof -
  from sanitize_result [of U "files j" raw_file "probe j" "ff_reads j" "ff_returncode j" "clock j"]
  obtain san_events where
    s: "sanitize U (files j) raw_file (probe j) (ff_reads j) (ff_returncode j) (clock j) =
      Inr (san_events, if ff_returncode j = 0
                       then Some (output_path_for U (files j) (path_stem raw_file)) else None)"
    and e: "get_duration (probe j) = None \<longrightarrow> san_events = []" by auto
  show ?thesis
  proof (cases "ff_returncode j = 0")
    case True
    with assms s e show ?thesis by (simp add: run_pipeline_def)
  next
    case False
    with assms s e show ?thesis by (simp add: run_pipeline_def)
  qed
qed

text \<open>
  C3. When the acquisition returned a raw file, the pipeline hands it to \<open>os.remove\<close> if and
  only if the sanitization process exited with code zero. In that case the job ends
  \<open>Done\<close> with a result whether or not the removal succeeds, and the file is gone from the
  listing exactly when the removal succeeds. Otherwise the job ends \<open>Failed\<close> with no
  result, nothing is removed and the listing is as before.
\<close>

theorem raw_file_removed_iff:
  assumes "download U (dl_stdout j) (dl_returncode j) = Inr (dl_events, Some raw_file)"
  shows "\<exists>out. run_pipeline U j = Inr out \<and>
     (removals out = [raw_file]) = (ff_returncode j = 0) \<and>
     (ff_returncode j = 0 \<longrightarrow>
        result out \<noteq> None \<and> after_sanitize U j = Done \<and>
        files_after out = (if remove_ok j then removeAll raw_file (files j) else files j)) \<and>
     (ff_returncode j \<noteq> 0 \<longrightarrow>
        result out = None \<and> after_sanitize U j = Failed \<and> removals out = [] \<and>
        files_after out = files j)"
proof -
  from run_pipeline_sanitized [OF assms] obtain out where
    "run_pipeline U j = Inr out"
    "result out = (if ff_returncode j = 0
                   then Some (output_path_for U (files j) (path_stem raw_file)) else None)"
    "removals out = (if ff_returncode j = 0 then [raw_file] else [])"
    "files_after out = (if ff_returncode j = 0 \<and> remove_ok j
                        then removeAll raw_file (files j) else files j)"
    by auto
  then show ?thesis by (auto simp: after_sanitize_def)
qed

lemma sample_download:
  "download ascii_ucd (dl_stdout (sample_job rc ok)) (dl_returncode (sample_job rc ok)) =
   Inr ([(None, ''title'', py ''a'')], Some (py ''/app/downloads/a.mp4''))"
  by (simp add: sample_job_def py_eval download_loop.simps)

theorem raw_file_removed_iff_witness:
  "(\<exists>out. run_pipeline ascii_ucd (sample_job 1 True) = Inr out \<and> result out = None \<and>
      removals out = [] \<and> files_after out = [py ''/app/downloads/a.mp4'']) \<and>
   (\<exists>out. run_pipeline ascii_ucd (sample_job 0 True) = Inr out \<and> result out \<noteq> None \<and>
      removals out = [py ''/app/downloads/a.mp4''] \<and> files_after out = []) \<and>
   (\<exists>out. run_pipeline ascii_ucd (sample_job 0 False) = Inr out \<and> result out \<noteq> None \<and>
      removals out = [py ''/app/downloads/a.mp4''] \<and>
      files_after out = [py ''/app/downloads/a.mp4''])"
  using raw_file_removed_iff [OF sample_download [of 1 True]]
    raw_file_removed_iff [OF sample_download [of 0 True]]
    raw_file_removed_iff [OF sample_download [of 0 False]]
  by (auto simp: sample_job_def)

section \<open>A failed duration probe\<close>

text \<open>
  C8, as amended. When the duration probe fails, by a process error or by a parse error,
  the duration is \<open>None\<close>; the sanitization stage does not raise and returns the output
  path exactly when the process exits with code zero, as it does for every other outcome
  of the probe; and it emits no progress event at all.
\<close>

theorem probe_failure_is_silent:
  assumes "p = ProbeProcessError \<or> p = ProbeParseError"
  shows "get_duration p = None \<and>
     sanitize U fs input_path p reads rc clk =
       Inr ([], if rc = 0 then Some (output_path_for U fs (path_stem input_path)) else None) \<and>
     (\<forall>q. \<exists>evs. sanitize U fs input_path q reads rc clk =
        Inr (evs, if rc = 0 then Some (output_path_for U fs (path_stem input_path)) else None))"
proof -
  from assms have d: "get_duration p = None" by auto
  from sanitize_result [of U fs input_path p reads rc clk] d
  have "sanitize U fs input_path p reads rc clk =
       Inr ([], if rc = 0 then Some (output_path_for U fs (path_stem input_path)) else None)"
    by auto
  moreover have "\<forall>q. \<exists>evs. sanitize U fs input_path q reads rc clk =
        Inr (evs, if rc = 0 then Some (output_path_for U fs (path_stem input_path)) else None)"
    using sanitize_result [of U fs input_path _ reads rc clk] by blast
  ultimately show ?thesis using d by simp
qed

text \<open>
  A run whose probe failed and whose output carries a timestamp: no event is emitted, so
  progress is not reported without a percentage, it is not reported.
\<close>

theorem probe_failure_counterexample:
  "sanitize ascii_ucd [] (py ''/app/downloads/a.mp4'') ProbeParseError
     [Data (''frame=100 time=00:00:30.00 speed=1.5x'' @ [CHR 0x0D])] 0 (\<lambda>k. 10) =
   Inr ([], Some (py ''/app/safe_output/a_clean.mp4''))"
  by (simp add: py_eval dec_str.simps drain.simps avoid_collision.simps)

theorem probe_failure_is_silent_witness:
  "get_duration ProbeProcessError = None \<and>
   sanitize ascii_ucd [] (py ''/app/downloads/a.mp4'') ProbeProcessError
     [Data (''time=00:00:30.00'' @ [CHR 0x0A]), Data (''time=00:00:31.00'' @ [CHR 0x0A])] 0
     (\<lambda>k. 10) =
   Inr ([], Some (output_path_for ascii_ucd [] (path_stem (py ''/app/downloads/a.mp4''))))"
  using probe_failure_is_silent [of ProbeProcessError ascii_ucd "[]" "py ''/app/downloads/a.mp4''"
      "[Data (''time=00:00:30.00'' @ [CHR 0x0A]), Data (''time=00:00:31.00'' @ [CHR 0x0A])]" 0
      "\<lambda>k. 10"]
  by simp

section \<open>Carriage returns\<close>

lemma next_break_Nil: "next_break [] = - 1"
  by (simp add: next_break_def)

lemma next_break_Cons:
  "next_break (c # cs) =
     (if is_break c then 0 else if next_break cs = - 1 then - 1 else next_break cs + 1)"
  using py_find_range [of "CHR 0x0D" cs] py_find_range [of "CHR 0x0A" cs]
  by (auto simp: next_break_def is_break_def Let_def)

lemma next_break_map:
  "keeps_breaks f \<Longrightarrow> next_break (map f s) = next_break s"
  by (induction s) (auto simp: next_break_Nil next_break_Cons keeps_breaks_def)

lemma take_line_map:
  "keeps_breaks f \<Longrightarrow> next_break s \<noteq> - 1 \<Longrightarrow>
   take (nat (next_break s)) (map f s) = take (nat (next_break s)) s"
proof (induction s)
  case Nil
  then show ?case by simp
next
  case (Cons c cs)
  show ?case
  proof (cases "is_break c")
    case True
    then show ?thesis by (simp add: next_break_Cons)
  next
    case False
    with Cons.prems have nb: "next_break cs \<noteq> - 1" and fc: "f c = c"
      by (auto simp: next_break_Cons keeps_breaks_def split: if_splits)
    from next_break_range [of cs] nb have "0 \<le> next_break cs" by auto
    then have "nat (next_break cs + 1) = Suc (nat (next_break cs))" by simp
    with False nb fc Cons.IH [OF Cons.prems(1) nb] show ?thesis
      by (simp add: next_break_Cons)
  qed
qed

lemma drain_map:
  assumes "keeps_breaks f"
  shows "drain U duration clk (map f buffer) evs =
     (case drain U duration clk buffer evs of
        Inl e \<Rightarrow> Inl e
      | Inr (b, e) \<Rightarrow> Inr (map f b, e))"
proof (induction U duration clk buffer evs rule: drain.induct)
  case (1 U duration clk buffer evs)
  show ?case
  proof (cases "next_break buffer = - 1")
    case True
    then show ?thesis
      using next_break_map [OF assms, of buffer]
      by (simp add: drain.simps [of U duration clk buffer evs]
          drain.simps [of U duration clk "map f buffer" evs])
  next
    case False
    let ?n = "nat (next_break buffer)"
    let ?text = "strip (decode_utf8 Ignore (take ?n buffer))"
    have nb: "next_break (map f buffer) = next_break buffer"
      by (rule next_break_map [OF assms])
    have tk: "take ?n (map f buffer) = take ?n buffer"
      by (rule take_line_map [OF assms False])
    show ?thesis
    proof (cases "sanitize_line U duration (clk (length evs)) ?text")
      case (Inl e)
      with False nb tk show ?thesis
        by (simp add: drain.simps [of U duration clk buffer evs]
            drain.simps [of U duration clk "map f buffer" evs] Let_def)
    next
      case (Inr new)
      from "1.IH" [OF refl False refl refl refl Inr]
      have "drain U duration clk (map f (drop (?n + 1) buffer)) (evs @ new) =
        (case drain U duration clk (drop (?n + 1) buffer) (evs @ new) of
           Inl e \<Rightarrow> Inl e
         | Inr (b, e) \<Rightarrow> Inr (map f b, e))" .
      with False nb tk Inr show ?thesis
        by (simp add: drain.simps [of U duration clk buffer evs]
            drain.simps [of U duration clk "map f buffer" evs] Let_def drop_map)
    qed
  qed
qed

lemma pump_map:
  assumes "keeps_breaks f"
  shows "pump U duration clk (map (map_read f) reads) (map f buffer) evs =
         pump U duration clk reads buffer evs"
proof (induction reads arbitrary: buffer evs)
  case Nil
  show ?case by simp
next
  case (Cons r rs)
  show ?case
  proof (cases r)
    case ReadError
    then show ?thesis by simp
  next
    case (Data chunk)
    have "drain U duration clk (map f buffer @ map f chunk) evs =
      (case drain U duration clk (buffer @ chunk) evs of
         Inl e \<Rightarrow> Inl e
       | Inr (b, e) \<Rightarrow> Inr (map f b, e))"
      using drain_map [OF assms, of U duration clk "buffer @ chunk" evs] by simp
    with Data Cons.IH show ?thesis
      by (auto split: sum.splits)
  qed
qed

text \<open>
  C5, as amended. In the sanitization stage a carriage return ends a line exactly as a
  newline does: changing terminators of the stream into other terminators, every other
  byte left alone, changes neither the events nor the result. (The acquisition stage
  reads its lines with \<open>readline\<close>, which ends a line at a newline only.)
\<close>

theorem sanitize_breaks_alike:
  assumes "keeps_breaks f"
  shows "sanitize U fs input_path p (map (map_read f) reads) rc clk =
         sanitize U fs input_path p reads rc clk"
  using pump_map [OF assms, of U "get_duration p" clk reads "[]" "[]"]
  by (simp add: sanitize_def Let_def)

lemma cr_to_nl_keeps: "keeps_breaks cr_to_nl"
  by (auto simp: keeps_breaks_def cr_to_nl_def is_break_def)

theorem sanitize_breaks_alike_witness:
  "keeps_breaks cr_to_nl \<and>
   sanitize ascii_ucd [] (py ''/app/downloads/a.mp4'') (ProbeValue 60)
     [Data (''frame=100 time=00:00:30.00 speed=1.5x'' @ [CHR 0x0A])] 0 (\<lambda>k. 10) =
   sanitize ascii_ucd [] (py ''/app/downloads/a.mp4'') (ProbeValue 60)
     [Data (''frame=100 time=00:00:30.00 speed=1.5x'' @ [CHR 0x0D])] 0 (\<lambda>k. 10)"
  using sanitize_breaks_alike [OF cr_to_nl_keeps, of ascii_ucd "[]" "py ''/app/downloads/a.mp4''"
      "ProbeValue 60" "[Data (''frame=100 time=00:00:30.00 speed=1.5x'' @ [CHR 0x0D])]" 0
      "\<lambda>k. 10"] cr_to_nl_keeps
  by (simp add: cr_to_nl_def)

text \<open>
  In the acquisition stage two announcements separated by a newline give two title
  events; separated by a carriage return they are one line, with one title event and
  another path.
\<close>

theorem carriage_return_counterexample:
  "download ascii_ucd
     (''[download] Destination: a.mp4'' @ [CHR 0x0A] @
      ''[download] Destination: b.mp4'' @ [CHR 0x0A]) 0 =
   Inr ([(None, ''title'', py ''a''), (None, ''title'', py ''b'')], Some (py ''b.mp4'')) \<and>
   download ascii_ucd
     (''[download] Destination: a.mp4'' @ [CHR 0x0D] @
      ''[download] Destination: b.mp4'' @ [CHR 0x0A]) 0 =
   Inr ([(None, ''title'', py ''a.mp4'' @ [13] @ py ''[download] Destination: b'')],
        Some (py ''a.mp4'' @ [13] @ py ''[download] Destination: b.mp4''))"
  by (simp add: py_eval download_loop.simps)

section \<open>The title of a job\<close>

lemma greedy_run:
  "list_all p ws \<Longrightarrow> n \<le> length ws \<Longrightarrow> rest = [] \<or> \<not> p (hd rest) \<Longrightarrow> k rest = Some x \<Longrightarrow>
   greedy p n k (ws @ rest) = Some x"
proof (induction ws arbitrary: n)
  case Nil
  then show ?case by (cases rest) auto
next
  case (Cons w ws)
  from Cons.prems have "n - 1 \<le> length ws" by simp
  from Cons.IH [OF _ this Cons.prems(3,4)] Cons.prems(1)
  have "greedy p (n - 1) k (ws @ rest) = Some x" by simp
  with Cons.prems(1) show ?case by simp
qed

lemma re_search_reaches:
  "re_match_here r s2 \<noteq> None \<Longrightarrow> re_search r (s1 @ s2) \<noteq> None"
proof (induction s1)
  case Nil
  then show ?case by (cases s2) (auto split: option.splits)
next
  case (Cons c cs)
  then show ?case by (auto split: option.splits)
qed

lemma format_id_found:
  assumes "ds \<noteq> []" and "list_all (isdecimal U) ds"
  shows "re_search (format_id_re U) (base @ py ''.f'' @ ds) \<noteq> None"
proof -
  have "greedy (isdecimal U) 1 (\<lambda>s'. if s' = [] \<or> s' = [10] then Some (Suc (Suc (length ds)) - length s', []::pystr list) else None) (ds @ []) =
        Some (Suc (Suc (length ds)) - length ([]::pystr), [])"
    using assms by (intro greedy_run) (auto simp: Suc_le_eq)
  then have "re_match_here (format_id_re U) (py ''.f'' @ ds) \<noteq> None"
    by (simp add: re_match_here_def format_id_re_def py_def)
  then show ?thesis by (rule re_search_reaches)
qed

lemma split_on_none: "sep \<notin> set s \<Longrightarrow> split_on sep s = [s]"
  by (induction s) auto

lemma path_stem_format_id:
  assumes "base \<noteq> []" and "47 \<notin> set base" and "list_all (isdecimal U) ds" and "ds \<noteq> []"
  shows "path_stem (base @ py ''.f'' @ ds) = base"
proof -
  let ?n = "base @ py ''.f'' @ ds"
  have nd: "46 \<notin> set ds" "47 \<notin> set ds"
    using assms(3) by (auto simp: list_all_iff isdecimal_def digit_value_def split: if_splits)
  have "47 \<notin> set ?n" using assms(2) nd by (simp add: py_def)
  then have "split_on 47 ?n = [?n]" by (rule split_on_none)
  moreover have "?n \<noteq> [46]" using assms(1) by (cases base) (auto simp: py_def)
  ultimately have name: "path_name ?n = ?n"
    using assms(1) by (simp add: path_name_def)
  have "\<forall>x\<in>set (rev ds). x \<noteq> 46" using nd(1) by auto
  then have "takeWhile (\<lambda>x. x \<noteq> 46) (rev ds @ [102, 46] @ rev base) =
      rev ds @ takeWhile (\<lambda>x. x \<noteq> 46) ([102, 46] @ rev base)"
    by (intro takeWhile_append2) auto
  then have "takeWhile (\<lambda>x. x \<noteq> 46) (rev ds @ [102, 46] @ rev base) = rev ds @ [102]"
    by simp
  then have "rfind 46 ?n = int (length base)"
    by (simp add: rfind_def py_def)
  with name assms(1,4) show ?thesis
    by (simp add: path_stem_def Let_def py_def)
qed

lemma strip_format_id_suffix:
  assumes "base \<noteq> []" and "47 \<notin> set base" and "list_all (isdecimal U) ds" and "ds \<noteq> []"
  shows "strip_format_id U (base @ py ''.f'' @ ds) = base"
  using format_id_found [OF assms(4,3), of base] path_stem_format_id [OF assms]
  by (simp add: strip_format_id_def)

lemma bracket_match_shape:
  assumes "matches bracket_re w G s'"
  shows "\<exists>sp inner. w = sp @ [91] @ inner @ [93] \<and> list_all isspace sp \<and> (s' = [] \<or> s' = [10])"
  using assms unfolding bracket_re_def seqs.simps matches.simps py_def by auto

lemma bracket_needs_end:
  assumes "s = [] \<or> (last s \<noteq> 93 \<and> last s \<noteq> 10)"
  shows "re_match_here bracket_re s = None"
proof (rule ccontr)
  assume "re_match_here bracket_re s \<noteq> None"
  then obtain n G where "re_match_here bracket_re s = Some (n, G)" by auto
  from re_match_here_sound [OF this] obtain w s' where
    s: "s = w @ s'" and m: "matches bracket_re w G s'" by blast
  from bracket_match_shape [OF m] obtain sp inner where
    "w = sp @ [91] @ inner @ [93]" "s' = [] \<or> s' = [10]" by blast
  with s have "s \<noteq> [] \<and> (last s = 93 \<or> last s = 10)" by auto
  with assms show False by auto
qed

lemma re_delete_unchanged:
  "s = [] \<or> (last s \<noteq> 93 \<and> last s \<noteq> 10) \<Longrightarrow> re_delete bracket_re s = s"
proof (induction s)
  case Nil
  show ?case by simp
next
  case (Cons c cs)
  from Cons.prems have "cs = [] \<or> (last cs \<noteq> 93 \<and> last cs \<noteq> 10)" by (auto split: if_splits)
  from Cons.IH [OF this] bracket_needs_end [OF Cons.prems] show ?case by simp
qed

lemma bracket_not_in_prefix:
  assumes "p1 \<noteq> []" and "91 \<notin> set p1" and "\<not> isspace (last p1)"
  shows "re_match_here bracket_re (p1 @ t) = None"
proof (rule ccontr)
  assume "re_match_here bracket_re (p1 @ t) \<noteq> None"
  then obtain n G where "re_match_here bracket_re (p1 @ t) = Some (n, G)" by auto
  from re_match_here_sound [OF this] obtain w s' where
    s: "p1 @ t = w @ s'" and m: "matches bracket_re w G s'" by blast
  from bracket_match_shape [OF m] obtain sp inner where
    w: "w = sp @ [91] @ inner @ [93]" and sp: "list_all isspace sp" by blast
  from s w have "p1 @ t = sp @ (91 # inner @ [93] @ s')" by simp
  then obtain us where "(p1 = sp @ us \<and> us @ t = 91 # inner @ [93] @ s') \<or>
      (p1 @ us = sp \<and> t = us @ 91 # inner @ [93] @ s')"
    by (auto simp: append_eq_append_conv2)
  then show False
  proof
    assume a: "p1 = sp @ us \<and> us @ t = 91 # inner @ [93] @ s'"
    show False
    proof (cases us)
      case Nil
      with a assms(1) have "last p1 \<in> set sp" by auto
      with sp assms(3) show False by (auto simp: list_all_iff)
    next
      case (Cons u us')
      with a have "u = 91" by simp
      with a Cons assms(2) show False by auto
    qed
  next
    assume a: "p1 @ us = sp \<and> t = us @ 91 # inner @ [93] @ s'"
    with assms(1) have "last p1 \<in> set sp" by auto
    with sp assms(3) show False by (auto simp: list_all_iff)
  qed
qed

lemma lazy_run:
  "list_all p inner \<Longrightarrow> (\<forall>j<length inner. k (drop j inner @ rest) = None) \<Longrightarrow>
   k rest = Some x \<Longrightarrow> lazy p 0 k (inner @ rest) = Some x"
proof (induction inner)
  case Nil
  then show ?case by (cases rest) auto
next
  case (Cons c cs)
  from Cons.prems(2) have k0: "k (c # cs @ rest) = None" by force
  have "\<forall>j<length cs. k (drop j cs @ rest) = None"
  proof (intro allI impI)
    fix j assume "j < length cs"
    then have "Suc j < length (c # cs)" by simp
    with Cons.prems(2) have "k (drop (Suc j) (c # cs) @ rest) = None" by blast
    then show "k (drop j cs @ rest) = None" by simp
  qed
  from Cons.IH [OF _ this Cons.prems(3)] Cons.prems(1)
  have "lazy p 0 k (cs @ rest) = Some x" by simp
  with k0 Cons.prems(1) show ?case by simp
qed

lemma bracket_at_first:
  assumes "list_all isspace ws" and "10 \<notin> set inner"
  shows "re_match_here bracket_re (ws @ [91] @ inner @ [93]) =
         Some (length ws + length inner + 2, [])"
proof -
  let ?s = "ws @ [91] @ inner @ [93]"
  let ?k = "\<lambda>(s'::pystr) (gs::pystr list). Some (length ?s - length s', gs)"
  let ?k2 = "\<lambda>s2. rmatch (Seq (Lit [93]) Eos) ?k s2 []"
  have fail: "\<forall>j<length inner. ?k2 (drop j inner @ [93]) = None"
  proof (intro allI impI)
    fix j assume j: "j < length inner"
    then obtain c tl where d: "drop j inner = c # tl" by (cases "drop j inner") auto
    then show "?k2 (drop j inner @ [93]) = None" by simp
  qed
  have "list_all dot inner" using assms(2) by (auto simp: list_all_iff dot_def)
  from lazy_run [OF this fail, of "(length ?s, [])"]
  have lz: "lazy dot 0 ?k2 (inner @ [93]) = Some (length ?s, [])" by simp
  have "greedy isspace 0 (\<lambda>s1. rmatch (seqs [Lit [91], Rep False 0 dot, Lit [93], Eos]) ?k s1 [])
          (ws @ ([91] @ inner @ [93])) = Some (length ?s, [])"
    using assms(1) lz by (intro greedy_run) (auto simp: isspace_def)
  then show ?thesis
    by (simp add: re_match_here_def bracket_re_def py_def)
qed

lemma re_delete_cut:
  "91 \<notin> set pre \<Longrightarrow> pre = [] \<or> \<not> isspace (last pre) \<Longrightarrow> list_all isspace ws \<Longrightarrow>
   10 \<notin> set inner \<Longrightarrow>
   re_delete bracket_re (pre @ ws @ [91] @ inner @ [93]) = pre"
proof (induction pre)
  case Nil
  let ?s = "ws @ [91] @ inner @ [93]"
  obtain c cs where cs: "?s = c # cs" by (cases ?s) auto
  then have len: "length ws + length inner + 2 = Suc (length cs)"
    by (metis add_2_eq_Suc' length_Cons length_append list.size(3) add.commute add_Suc_right
        add.left_neutral append_Cons append_Nil)
  from bracket_at_first [OF Nil.prems(3,4)] cs len
  have "re_match_here bracket_re (c # cs) = Some (Suc (length cs), [])" by simp
  then have "re_delete bracket_re (c # cs) = []" by simp
  with cs show ?case by simp
next
  case (Cons p pre)
  from Cons.prems(2) have last: "\<not> isspace (last (p # pre))" by simp
  then have "pre = [] \<or> \<not> isspace (last pre)" by (auto split: if_splits)
  from Cons.IH [OF _ this Cons.prems(3,4)] Cons.prems(1)
  have ih: "re_delete bracket_re (pre @ ws @ [91] @ inner @ [93]) = pre" by simp
  from bracket_not_in_prefix [OF _ Cons.prems(1) last, of "ws @ [91] @ inner @ [93]"]
  have "re_match_here bracket_re (p # pre @ ws @ [91] @ inner @ [93]) = None" by simp
  with ih show ?case by simp
qed

text \<open>
  What a line with an announcement does, and what the two stripping steps do. Every line
  on which one of the three patterns finds a name \<open>d\<close> makes that name the final file name
  and emits a title event. Stripping the format id turns \<open>base.fNNN\<close> into \<open>base\<close> and leaves
  a name without such an ending alone. Stripping the bracketed suffix cuts a name that
  ends in \<open>]\<close> at its first \<open>[\<close>, white space before it included, whatever stands between
  that bracket and the last one; it leaves a name that does not end in \<open>]\<close> alone.
\<close>

lemma title_of_announcement:
  "(detect_name (line_text line) = Some d \<longrightarrow>
      (\<exists>evs. download_line U st line =
         Inr \<lparr> final_filename = Some d,
               emitted = emitted st @
                 (None, ''title'', strip_bracket_suffix (strip_format_id U (path_stem d))) # evs \<rparr>)) \<and>
   (base \<noteq> [] \<and> 47 \<notin> set base \<and> ds \<noteq> [] \<and> list_all (isdecimal U) ds \<longrightarrow>
      strip_format_id U (base @ py ''.f'' @ ds) = base) \<and>
   (re_search (format_id_re U) n = None \<longrightarrow> strip_format_id U n = n) \<and>
   (91 \<notin> set pre \<and> (pre = [] \<or> \<not> isspace (last pre)) \<and> list_all isspace ws \<and>
    10 \<notin> set inner \<longrightarrow>
      strip_bracket_suffix (pre @ ws @ [91] @ inner @ [93]) = pre) \<and>
   (t = [] \<or> (last t \<noteq> 93 \<and> last t \<noteq> 10) \<longrightarrow> strip_bracket_suffix t = t)"
proof -
  have "\<exists>evs. download_line U st line =
         Inr \<lparr> final_filename = Some d,
               emitted = emitted st @
                 (None, ''title'', strip_bracket_suffix (strip_format_id U (path_stem d))) # evs \<rparr>"
    if d: "detect_name (line_text line) = Some d"
  proof -
    from detect_name_nonempty [OF d] d
    have "title_events U (line_text line) = [(None, ''title'', clean_title U d)]"
      by (simp add: title_events_def)
    with download_line_result [of U st line] d show ?thesis
      by (auto simp: clean_title_def)
  qed
  moreover have "strip_format_id U (base @ py ''.f'' @ ds) = base"
    if "base \<noteq> [] \<and> 47 \<notin> set base \<and> ds \<noteq> [] \<and> list_all (isdecimal U) ds"
    using that by (intro strip_format_id_suffix) auto
  moreover have "re_search (format_id_re U) n = None \<longrightarrow> strip_format_id U n = n"
    by (simp add: strip_format_id_def)
  moreover have "strip_bracket_suffix (pre @ ws @ [91] @ inner @ [93]) = pre"
    if "91 \<notin> set pre \<and> (pre = [] \<or> \<not> isspace (last pre)) \<and> list_all isspace ws \<and>
        10 \<notin> set inner"
    using that re_delete_cut [of pre ws inner] by (simp add: strip_bracket_suffix_def)
  moreover have "strip_bracket_suffix t = t" if "t = [] \<or> (last t \<noteq> 93 \<and> last t \<noteq> 10)"
    using re_delete_unchanged [OF that] by (simp add: strip_bracket_suffix_def)
  ultimately show ?thesis by blast
qed

lemma title_line_example:
  "detect_name (line_text (''[download] Destination: MyVideo [abc123].f303.mp4'' @ [CHR 0x0A])) =
   Some (py ''MyVideo [abc123].f303.mp4'')"
  by (simp add: py_eval)

lemma title_text_example:
  "strip_bracket_suffix (strip_format_id ascii_ucd (path_stem (py ''MyVideo [abc123].f303.mp4''))) =
   py ''MyVideo''"
  by (simp add: py_eval)

lemma title_download_example:
  "download ascii_ucd (''[download] Destination: MyVideo [abc123].f303.mp4'' @ [CHR 0x0A]) 0 =
   Inr ([(None, ''title'', py ''MyVideo'')], Some (py ''MyVideo [abc123].f303.mp4''))"
  by (simp add: py_eval download_loop.simps)

lemma title_hyps_example:
  "py ''MyVideo [abc123]'' \<noteq> [] \<and> 47 \<notin> set (py ''MyVideo [abc123]'') \<and> py ''303'' \<noteq> [] \<and>
   list_all (isdecimal ascii_ucd) (py ''303'') \<and>
   re_search (format_id_re ascii_ucd) (py ''MyVideo'') = None \<and>
   91 \<notin> set (py ''MyVideo'') \<and> \<not> isspace (last (py ''MyVideo'')) \<and> list_all isspace [32] \<and>
   10 \<notin> set (py ''abc123'') \<and> last (py ''MyVideo'') \<noteq> 93 \<and> last (py ''MyVideo'') \<noteq> 10"
  by (simp add: py_eval)

lemma title_of_announcement_example:
  "detect_name (line_text (''[download] Destination: MyVideo [abc123].f303.mp4'' @ [CHR 0x0A])) =
     Some (py ''MyVideo [abc123].f303.mp4'') \<and>
   (\<exists>evs. download_line ascii_ucd \<lparr> final_filename = None, emitted = [] \<rparr>
      (''[download] Destination: MyVideo [abc123].f303.mp4'' @ [CHR 0x0A]) =
      Inr \<lparr> final_filename = Some (py ''MyVideo [abc123].f303.mp4''),
            emitted = (None, ''title'', py ''MyVideo'') # evs \<rparr>) \<and>
   download ascii_ucd (''[download] Destination: MyVideo [abc123].f303.mp4'' @ [CHR 0x0A]) 0 =
     Inr ([(None, ''title'', py ''MyVideo'')], Some (py ''MyVideo [abc123].f303.mp4'')) \<and>
   strip_format_id ascii_ucd (py ''MyVideo [abc123]'' @ py ''.f'' @ py ''303'') =
     py ''MyVideo [abc123]'' \<and>
   strip_format_id ascii_ucd (py ''MyVideo'') = py ''MyVideo'' \<and>
   strip_bracket_suffix (py ''MyVideo'' @ [32] @ [91] @ py ''abc123'' @ [93]) = py ''MyVideo'' \<and>
   strip_bracket_suffix (py ''MyVideo'') = py ''MyVideo''"
  using title_of_announcement [where
      line = "''[download] Destination: MyVideo [abc123].f303.mp4'' @ [CHR 0x0A]"
      and d = "py ''MyVideo [abc123].f303.mp4''" and U = ascii_ucd
      and st = "\<lparr> final_filename = None, emitted = [] \<rparr>"
      and base = "py ''MyVideo [abc123]''" and ds = "py ''303''" and n = "py ''MyVideo''"
      and pre = "py ''MyVideo''" and ws = "[32]" and inner = "py ''abc123''"
      and t = "py ''MyVideo''"]
    title_line_example title_download_example title_hyps_example
  by (simp only: title_text_example) simp


section \<open>The permits bound the running pipelines\<close>

lemma filter_update_count:
  "i < length xs \<Longrightarrow>
   length (filter P (xs[i := v])) + (if P (xs ! i) then 1 else 0) =
   length (filter P xs) + (if P v then 1 else 0)"
proof (induction xs arbitrary: i)
  case Nil
  then show ?case by simp
next
  case (Cons x xs)
  show ?case
  proof (cases i)
    case 0
    then show ?thesis by simp
  next
    case (Suc k)
    with Cons.prems have "k < length xs" by simp
    from Cons.IH [OF this] Suc show ?thesis by simp
  qed
qed

lemma holders_update:
  "i < length (tasks s) \<Longrightarrow>
   holders \<lparr> permits = p, tasks = (tasks s)[i := v] \<rparr> + (if holds (tasks s ! i) then 1 else 0) =
   holders s + (if holds v then 1 else 0)"
  using filter_update_count [of i "tasks s" holds v] by (simp add: holders_def)

lemma after_download_cases:
  "after_download U j = Sanitizing \<or> after_download U j = Failed"
  using download_result [of U "dl_stdout j" "dl_returncode j"]
  by (auto simp: after_download_def split: if_splits)

lemma after_download_Failed:
  assumes "after_download U j = Failed"
  shows "\<exists>out. run_pipeline U j = Inr out \<and> result out = None \<and> launched out = [YtDlp]"
proof -
  from assms obtain evs where "download U (dl_stdout j) (dl_returncode j) = Inr (evs, None)"
    by (auto simp: after_download_def split: sum.splits prod.splits option.splits)
  then show ?thesis by (rule run_pipeline_no_file)
qed

lemma after_download_Sanitizing:
  assumes "after_download U j = Sanitizing"
  shows "\<exists>out. run_pipeline U j = Inr out \<and> launched out = [YtDlp, Ffprobe, Ffmpeg] \<and>
     (result out \<noteq> None) = (ff_returncode j = 0) \<and>
     after_sanitize U j = (if ff_returncode j = 0 then Done else Failed)"
proof -
  from assms obtain evs raw where "download U (dl_stdout j) (dl_returncode j) = Inr (evs, Some raw)"
    by (auto simp: after_download_def split: sum.splits prod.splits option.splits)
  from run_pipeline_sanitized [OF this] obtain out where
    "run_pipeline U j = Inr out" "launched out = [YtDlp, Ffprobe, Ffmpeg]"
    "result out = (if ff_returncode j = 0
                   then Some (output_path_for U (files j) (path_stem raw)) else None)"
    by auto
  then show ?thesis by (auto simp: after_sanitize_def)
qed

lemma step_preserves:
  assumes "step U jobs s t" and "system_ok U jobs s"
  shows "system_ok U jobs t"
  using assms(1)
proof (cases rule: step.cases)
  case (enter i)
  from assms(2) enter have ok: "task_ok U (jobs ! i) (tasks s ! i)" and i: "i < length jobs"
    by (auto simp: system_ok_def)
  with enter have nh: "\<not> holds (tasks s ! i)" by (simp add: task_ok_def)
  have "task_ok U (jobs ! i) \<lparr> stage = Acquiring, holds = True, started = [YtDlp] \<rparr>"
    by (simp add: task_ok_def)
  with assms(2) enter nh
    holders_update [of i s "permits s - 1" "\<lparr> stage = Acquiring, holds = True, started = [YtDlp] \<rparr>"]
  show ?thesis
    by (auto simp: system_ok_def nth_list_update)
next
  case (downloaded i)
  from assms(2) downloaded have ok: "task_ok U (jobs ! i) (tasks s ! i)" and i: "i < length jobs"
    by (auto simp: system_ok_def)
  with downloaded have h: "holds (tasks s ! i)" and st: "started (tasks s ! i) = [YtDlp]"
    by (auto simp: task_ok_def)
  let ?v = "(tasks s ! i) \<lparr> stage := Sanitizing, started := started (tasks s ! i) @ [Ffprobe, Ffmpeg] \<rparr>"
  have "task_ok U (jobs ! i) ?v"
    using h st downloaded by (simp add: task_ok_def)
  with assms(2) downloaded h holders_update [of i s "permits s" ?v]
  show ?thesis
    by (auto simp: system_ok_def nth_list_update)
next
  case (download_ended i)
  from assms(2) download_ended have ok: "task_ok U (jobs ! i) (tasks s ! i)" and i: "i < length jobs"
    by (auto simp: system_ok_def)
  with download_ended have h: "holds (tasks s ! i)" and st: "started (tasks s ! i) = [YtDlp]"
    by (auto simp: task_ok_def)
  from download_ended after_download_cases [of U "jobs ! i"]
  have f: "after_download U (jobs ! i) = Failed" by auto
  let ?v = "(tasks s ! i) \<lparr> stage := after_download U (jobs ! i), holds := False \<rparr>"
  have "task_ok U (jobs ! i) ?v"
    using f st after_download_Failed [OF f] by (auto simp: task_ok_def)
  with assms(2) download_ended h holders_update [of i s "permits s + 1" ?v]
  show ?thesis
    by (auto simp: system_ok_def nth_list_update)
next
  case (sanitized i)
  from assms(2) sanitized have ok: "task_ok U (jobs ! i) (tasks s ! i)" and i: "i < length jobs"
    by (auto simp: system_ok_def)
  with sanitized have h: "holds (tasks s ! i)"
    and st: "started (tasks s ! i) = [YtDlp, Ffprobe, Ffmpeg]"
    and ad: "after_download U (jobs ! i) = Sanitizing"
    by (auto simp: task_ok_def)
  let ?v = "(tasks s ! i) \<lparr> stage := after_sanitize U (jobs ! i), holds := False \<rparr>"
  have "task_ok U (jobs ! i) ?v"
    using st after_download_Sanitizing [OF ad] by (auto simp: task_ok_def)
  with assms(2) sanitized h holders_update [of i s "permits s + 1" ?v]
  show ?thesis
    by (auto simp: system_ok_def nth_list_update)
qed

lemma reachable_ok: "reachable U jobs s \<Longrightarrow> system_ok U jobs s"
proof (induction rule: reachable.induct)
  case reach_initial
  show ?case
    by (simp add: system_ok_def initial_def holders_def task_ok_def)
next
  case (reach_step s t)
  then show ?case by (auto intro: step_preserves)
qed

lemma running_holders:
  assumes "system_ok U jobs s"
  shows "running s = holders s"
proof -
  have "\<forall>t\<in>set (tasks s). holds t = (stage t = Acquiring \<or> stage t = Sanitizing)"
  proof
    fix t assume "t \<in> set (tasks s)"
    then obtain i where "i < length (tasks s)" "tasks s ! i = t" by (auto simp: in_set_conv_nth)
    with assms have "task_ok U (jobs ! i) t" by (auto simp: system_ok_def)
    then show "holds t = (stage t = Acquiring \<or> stage t = Sanitizing)"
      by (cases "stage t") (auto simp: task_ok_def)
  qed
  then have "filter holds (tasks s) =
      filter (\<lambda>t. stage t = Acquiring \<or> stage t = Sanitizing) (tasks s)"
    by (intro filter_cong) auto
  then show ?thesis by (simp add: running_def holders_def)
qed

lemma leaves_queue:
  assumes "step U jobs s t" and "i < length (tasks s)" and "stage (tasks s ! i) = Queued"
    and "stage (tasks t ! i) \<noteq> Queued"
  shows "permits t + 1 = permits s \<and>
         tasks t ! i = \<lparr> stage = Acquiring, holds = True, started = [YtDlp] \<rparr>"
  using assms(1)
proof (cases rule: step.cases)
  case (enter k)
  with assms(2,3,4) have "k = i" by (cases "k = i") (auto simp: nth_list_update)
  with enter assms(2) show ?thesis by simp
next
  case (downloaded k)
  with assms(2,3,4) show ?thesis by (cases "k = i") (auto simp: nth_list_update)
next
  case (download_ended k)
  with assms(2,3,4) show ?thesis by (cases "k = i") (auto simp: nth_list_update)
next
  case (sanitized k)
  with assms(2,3,4) show ?thesis by (cases "k = i") (auto simp: nth_list_update)
qed

text \<open>
  C1. In every state the system can reach, whatever the jobs, at most 3 jobs are in the
  stages \<open>Acquiring\<close> or \<open>Sanitizing\<close>; they are exactly the tasks that hold a permit, and
  the permits taken from the semaphore are exactly one for each of them. A queued job
  holds no permit and has started no process, and the only step that takes it out of the
  queue takes one permit and starts the acquisition process. A job whose acquisition
  failed can leave the block, and so can every job in the sanitization stage, whether the
  sanitization fails or succeeds; the step gives the permit back. A job that has ended
  holds no permit, and its stage and the processes it started are those of its run of
  \<open>run_pipeline\<close>.
\<close>

theorem semaphore_bounds_pipelines:
  assumes "reachable U jobs s"
  shows "running s \<le> 3 \<and> holders s = running s \<and> permits s + holders s = 3 \<and>
     length (tasks s) = length jobs \<and>
     (\<forall>i<length jobs.
        task_ok U (jobs ! i) (tasks s ! i) \<and>
        (\<forall>t. step U jobs s t \<and> stage (tasks s ! i) = Queued \<and> stage (tasks t ! i) \<noteq> Queued \<longrightarrow>
           permits t + 1 = permits s \<and>
           tasks t ! i = \<lparr> stage = Acquiring, holds = True, started = [YtDlp] \<rparr>) \<and>
        (stage (tasks s ! i) = Acquiring \<and> after_download U (jobs ! i) = Failed \<longrightarrow>
           step U jobs s
             \<lparr> permits = permits s + 1,
               tasks = (tasks s)[i := (tasks s ! i) \<lparr> stage := Failed, holds := False \<rparr>] \<rparr>) \<and>
        (stage (tasks s ! i) = Sanitizing \<longrightarrow>
           step U jobs s
             \<lparr> permits = permits s + 1,
               tasks = (tasks s)[i := (tasks s ! i)
                         \<lparr> stage := (if ff_returncode (jobs ! i) = 0 then Done else Failed),
                           holds := False \<rparr>] \<rparr>))"
proof -
  from reachable_ok [OF assms] have ok: "system_ok U jobs s" .
  then have len: "length (tasks s) = length jobs"
    and cnt: "permits s + holders s = 3"
    and tk: "\<forall>i<length jobs. task_ok U (jobs ! i) (tasks s ! i)"
    by (auto simp: system_ok_def MAX_CONCURRENT_TASKS_def)
  have rh: "running s = holders s" by (rule running_holders [OF ok])
  have "\<forall>i<length jobs.
        task_ok U (jobs ! i) (tasks s ! i) \<and>
        (\<forall>t. step U jobs s t \<and> stage (tasks s ! i) = Queued \<and> stage (tasks t ! i) \<noteq> Queued \<longrightarrow>
           permits t + 1 = permits s \<and>
           tasks t ! i = \<lparr> stage = Acquiring, holds = True, started = [YtDlp] \<rparr>) \<and>
        (stage (tasks s ! i) = Acquiring \<and> after_download U (jobs ! i) = Failed \<longrightarrow>
           step U jobs s
             \<lparr> permits = permits s + 1,
               tasks = (tasks s)[i := (tasks s ! i) \<lparr> stage := Failed, holds := False \<rparr>] \<rparr>) \<and>
        (stage (tasks s ! i) = Sanitizing \<longrightarrow>
           step U jobs s
             \<lparr> permits = permits s + 1,
               tasks = (tasks s)[i := (tasks s ! i)
                         \<lparr> stage := (if ff_returncode (jobs ! i) = 0 then Done else Failed),
                           holds := False \<rparr>] \<rparr>)"
  proof (intro allI impI conjI)
    fix i assume i: "i < length jobs"
    with tk show "task_ok U (jobs ! i) (tasks s ! i)" by simp
  next
    fix i t assume i: "i < length jobs"
      and h: "step U jobs s t \<and> stage (tasks s ! i) = Queued \<and> stage (tasks t ! i) \<noteq> Queued"
    from leaves_queue [of U jobs s t i] h i len
    show "permits t + 1 = permits s"
      and "tasks t ! i = \<lparr> stage = Acquiring, holds = True, started = [YtDlp] \<rparr>" by auto
  next
    fix i assume i: "i < length jobs"
      and h: "stage (tasks s ! i) = Acquiring \<and> after_download U (jobs ! i) = Failed"
    from step.download_ended [of i s U jobs] h i len
    show "step U jobs s
             \<lparr> permits = permits s + 1,
               tasks = (tasks s)[i := (tasks s ! i) \<lparr> stage := Failed, holds := False \<rparr>] \<rparr>"
      by simp
  next
    fix i assume i: "i < length jobs" and h: "stage (tasks s ! i) = Sanitizing"
    from tk i h have "after_download U (jobs ! i) = Sanitizing" by (auto simp: task_ok_def)
    from after_download_Sanitizing [OF this]
    have "after_sanitize U (jobs ! i) = (if ff_returncode (jobs ! i) = 0 then Done else Failed)"
      by blast
    with step.sanitized [of i s U jobs] h i len
    show "step U jobs s
             \<lparr> permits = permits s + 1,
               tasks = (tasks s)[i := (tasks s ! i)
                         \<lparr> stage := (if ff_returncode (jobs ! i) = 0 then Done else Failed),
                           holds := False \<rparr>] \<rparr>"
      by simp
  qed
  with len cnt rh show ?thesis by simp
qed

lemma example_job_fails: "after_download ascii_ucd example_job = Failed"
  by (simp add: after_download_def example_job_def download_def download_loop.simps truthy_def)

lemma sample_job_downloads: "after_download ascii_ucd (sample_job rc ok) = Sanitizing"
  by (simp add: after_download_def sample_download)

lemma sample_job_ends:
  "after_sanitize ascii_ucd (sample_job rc ok) = (if rc = 0 then Done else Failed)"
proof -
  have rc: "ff_returncode (sample_job rc ok) = rc" by (simp add: sample_job_def)
  from after_download_Sanitizing [OF sample_job_downloads [of rc ok]] show ?thesis
    unfolding rc by blast
qed

theorem semaphore_bounds_pipelines_witness:
  "reachable ascii_ucd demo_jobs
     \<lparr> permits = 0,
       tasks = [\<lparr> stage = Acquiring, holds = True, started = [YtDlp] \<rparr>,
                \<lparr> stage = Acquiring, holds = True, started = [YtDlp] \<rparr>,
                \<lparr> stage = Acquiring, holds = True, started = [YtDlp] \<rparr>,
                \<lparr> stage = Queued, holds = False, started = [] \<rparr>,
                \<lparr> stage = Queued, holds = False, started = [] \<rparr>] \<rparr> \<and>
   running
     \<lparr> permits = 0,
       tasks = [\<lparr> stage = Acquiring, holds = True, started = [YtDlp] \<rparr>,
                \<lparr> stage = Acquiring, holds = True, started = [YtDlp] \<rparr>,
                \<lparr> stage = Acquiring, holds = True, started = [YtDlp] \<rparr>,
                \<lparr> stage = Queued, holds = False, started = [] \<rparr>,
                \<lparr> stage = Queued, holds = False, started = [] \<rparr>] \<rparr> = 3 \<and>
   reachable ascii_ucd demo_jobs
     \<lparr> permits = 2,
       tasks = [\<lparr> stage = Failed, holds = False, started = [YtDlp] \<rparr>,
                \<lparr> stage = Done, holds = False, started = [YtDlp, Ffprobe, Ffmpeg] \<rparr>,
                \<lparr> stage = Failed, holds = False, started = [YtDlp, Ffprobe, Ffmpeg] \<rparr>,
                \<lparr> stage = Acquiring, holds = True, started = [YtDlp] \<rparr>,
                \<lparr> stage = Queued, holds = False, started = [] \<rparr>] \<rparr> \<and>
   running
     \<lparr> permits = 2,
       tasks = [\<lparr> stage = Failed, holds = False, started = [YtDlp] \<rparr>,
                \<lparr> stage = Done, holds = False, started = [YtDlp, Ffprobe, Ffmpeg] \<rparr>,
                \<lparr> stage = Failed, holds = False, started = [YtDlp, Ffprobe, Ffmpeg] \<rparr>,
                \<lparr> stage = Acquiring, holds = True, started = [YtDlp] \<rparr>,
                \<lparr> stage = Queued, holds = False, started = [] \<rparr>] \<rparr> = 1"
proof -
  let ?Q = "\<lparr> stage = Queued, holds = False, started = [] \<rparr>"
  let ?A = "\<lparr> stage = Acquiring, holds = True, started = [YtDlp] \<rparr>"
  let ?S = "\<lparr> stage = Sanitizing, holds = True, started = [YtDlp, Ffprobe, Ffmpeg] \<rparr>"
  let ?F1 = "\<lparr> stage = Failed, holds = False, started = [YtDlp] \<rparr>"
  let ?D = "\<lparr> stage = Done, holds = False, started = [YtDlp, Ffprobe, Ffmpeg] \<rparr>"
  let ?F2 = "\<lparr> stage = Failed, holds = False, started = [YtDlp, Ffprobe, Ffmpeg] \<rparr>"
  let ?s0 = "\<lparr> permits = 3, tasks = [?Q, ?Q, ?Q, ?Q, ?Q] \<rparr>"
  let ?s1 = "\<lparr> permits = 2, tasks = [?A, ?Q, ?Q, ?Q, ?Q] \<rparr>"
  let ?s2 = "\<lparr> permits = 1, tasks = [?A, ?A, ?Q, ?Q, ?Q] \<rparr>"
  let ?s3 = "\<lparr> permits = 0, tasks = [?A, ?A, ?A, ?Q, ?Q] \<rparr>"
  let ?s4 = "\<lparr> permits = 1, tasks = [?F1, ?A, ?A, ?Q, ?Q] \<rparr>"
  let ?s5 = "\<lparr> permits = 1, tasks = [?F1, ?S, ?A, ?Q, ?Q] \<rparr>"
  let ?s6 = "\<lparr> permits = 2, tasks = [?F1, ?D, ?A, ?Q, ?Q] \<rparr>"
  let ?s7 = "\<lparr> permits = 2, tasks = [?F1, ?D, ?S, ?Q, ?Q] \<rparr>"
  let ?s8 = "\<lparr> permits = 3, tasks = [?F1, ?D, ?F2, ?Q, ?Q] \<rparr>"
  let ?s9 = "\<lparr> permits = 2, tasks = [?F1, ?D, ?F2, ?A, ?Q] \<rparr>"
  have "initial demo_jobs = ?s0"
    by (simp add: initial_def MAX_CONCURRENT_TASKS_def demo_jobs_def)
  then have r0: "reachable ascii_ucd demo_jobs ?s0"
    using reach_initial [of ascii_ucd demo_jobs] by simp
  have "step ascii_ucd demo_jobs ?s0 ?s1"
    using step.enter [of 0 ?s0 ascii_ucd demo_jobs] by simp
  with r0 have r1: "reachable ascii_ucd demo_jobs ?s1" by (rule reach_step)
  have "step ascii_ucd demo_jobs ?s1 ?s2"
    using step.enter [of 1 ?s1 ascii_ucd demo_jobs] by simp
  with r1 have r2: "reachable ascii_ucd demo_jobs ?s2" by (rule reach_step)
  have "step ascii_ucd demo_jobs ?s2 ?s3"
    using step.enter [of 2 ?s2 ascii_ucd demo_jobs] by simp
  with r2 have r3: "reachable ascii_ucd demo_jobs ?s3" by (rule reach_step)
  have "step ascii_ucd demo_jobs ?s3 ?s4"
    using step.download_ended [of 0 ?s3 ascii_ucd demo_jobs] example_job_fails
    by (simp add: demo_jobs_def numeral_2_eq_2 numeral_3_eq_3)
  with r3 have r4: "reachable ascii_ucd demo_jobs ?s4" by (rule reach_step)
  have "step ascii_ucd demo_jobs ?s4 ?s5"
    using step.downloaded [of 1 ?s4 ascii_ucd demo_jobs] sample_job_downloads [of 0 True]
    by (simp add: demo_jobs_def numeral_2_eq_2 numeral_3_eq_3)
  with r4 have r5: "reachable ascii_ucd demo_jobs ?s5" by (rule reach_step)
  have "step ascii_ucd demo_jobs ?s5 ?s6"
    using step.sanitized [of 1 ?s5 ascii_ucd demo_jobs] sample_job_ends [of 0 True]
    by (simp add: demo_jobs_def numeral_2_eq_2 numeral_3_eq_3)
  with r5 have r6: "reachable ascii_ucd demo_jobs ?s6" by (rule reach_step)
  have "step ascii_ucd demo_jobs ?s6 ?s7"
    using step.downloaded [of 2 ?s6 ascii_ucd demo_jobs] sample_job_downloads [of 1 True]
    by (simp add: demo_jobs_def numeral_2_eq_2 numeral_3_eq_3)
  with r6 have r7: "reachable ascii_ucd demo_jobs ?s7" by (rule reach_step)
  have "step ascii_ucd demo_jobs ?s7 ?s8"
    using step.sanitized [of 2 ?s7 ascii_ucd demo_jobs] sample_job_ends [of 1 True]
    by (simp add: demo_jobs_def numeral_2_eq_2 numeral_3_eq_3)
  with r7 have r8: "reachable ascii_ucd demo_jobs ?s8" by (rule reach_step)
  have "step ascii_ucd demo_jobs ?s8 ?s9"
    using step.enter [of 3 ?s8 ascii_ucd demo_jobs] by (simp add: numeral_2_eq_2 numeral_3_eq_3)
  with r8 have r9: "reachable ascii_ucd demo_jobs ?s9" by (rule reach_step)
  have "running ?s3 = 3" "running ?s9 = 1"
    using semaphore_bounds_pipelines [OF r3] semaphore_bounds_pipelines [OF r9]
    by (simp_all add: holders_def)
  with r3 r9 show ?thesis by simp
qed

end
